theory Spec2Isabelle
  imports Complex_Main
begin

section \<open>Strings\<close>

text \<open>
  A Python \<open>str\<close> is a sequence of Unicode code points and \<open>len\<close> counts code points,
  so a string is a list of code points, each a natural number. \<open>str\<close> turns a literal
  into such a list.
\<close>

type_synonym pystr = "nat list"

definition str :: "string \<Rightarrow> pystr" where
  "str s = map of_char s"

text \<open>
  The code points on which \<open>str.split()\<close> without arguments and \<open>str.strip()\<close> without
  arguments act (CPython's \<open>Py_UNICODE_ISSPACE\<close>): tab, line feed, vertical tab, form
  feed, carriage return, the separators 28 to 31, space, next line (133), no-break
  space (160) and the Unicode spaces above the Latin-1 range.
\<close>

definition is_space :: "nat \<Rightarrow> bool" where
  "is_space c =
     ((9 \<le> c \<and> c \<le> 13) \<or> (28 \<le> c \<and> c \<le> 32) \<or> c = 133 \<or> c = 160 \<or> c = 5760 \<or>
      (8192 \<le> c \<and> c \<le> 8202) \<or> c = 8232 \<or> c = 8233 \<or> c = 8239 \<or> c = 8287 \<or>
      c = 12288)"

text \<open>
  \<open>text.split()\<close>: skip a run of whitespace, take the maximal run of other characters as
  the next word, repeat. No word is empty.
\<close>

function split_ws :: "pystr \<Rightarrow> pystr list" where
  "split_ws s =
     (case dropWhile is_space s of
        [] \<Rightarrow> []
      | c # cs \<Rightarrow>
          takeWhile (\<lambda>x. \<not> is_space x) (c # cs) #
            split_ws (dropWhile (\<lambda>x. \<not> is_space x) (c # cs)))"
  by pat_completeness auto
termination
proof (relation "measure length")
  show "wf (measure length)" by simp
next
  fix s :: pystr and c cs
  assume h: "dropWhile is_space s = c # cs"
  have "\<not> is_space c"
    using h hd_dropWhile [of is_space s] by auto
  then have "length (dropWhile (\<lambda>x. \<not> is_space x) (c # cs)) \<le> length cs"
    by (simp add: length_dropWhile_le)
  moreover have "length (c # cs) \<le> length s"
    using h length_dropWhile_le [of is_space s] by simp
  ultimately show "(dropWhile (\<lambda>x. \<not> is_space x) (c # cs), s) \<in> measure length"
    by simp
qed

declare split_ws.simps [simp del]

text \<open>\<open>sep.join(parts)\<close>.\<close>

fun join :: "pystr \<Rightarrow> pystr list \<Rightarrow> pystr" where
  "join sep [] = []"
| "join sep [x] = x"
| "join sep (x # y # ys) = x @ sep @ join sep (y # ys)"

text \<open>\<open>text.strip()\<close>: drop the whitespace at both ends.\<close>

definition strip :: "pystr \<Rightarrow> pystr" where
  "strip s = rev (dropWhile is_space (rev (dropWhile is_space s)))"

text \<open>\<open>clean_text(text)\<close> is \<open>" ".join(text.split()).strip()\<close>.\<close>

definition clean_text :: "pystr \<Rightarrow> pystr" where
  "clean_text text = strip (join (str '' '') (split_ws text))"

section \<open>Deduplication\<close>

text \<open>
  \<open>dedupe_keep_order\<close>: the loop over \<open>items\<close> with its two variables, the set \<open>seen\<close> and
  the list \<open>out\<close>.
\<close>

fun dedupe_loop :: "'a set \<Rightarrow> 'a list \<Rightarrow> 'a list \<Rightarrow> 'a list" where
  "dedupe_loop seen out [] = out"
| "dedupe_loop seen out (it # items) =
     (if it \<notin> seen then dedupe_loop (insert it seen) (out @ [it]) items
      else dedupe_loop seen out items)"

definition dedupe_keep_order :: "'a list \<Rightarrow> 'a list" where
  "dedupe_keep_order items = dedupe_loop {} [] items"

section \<open>Chunking\<close>

text \<open>
  \<open>for i in range(0, len(text), 800): chunk = text[i:i+800]\<close>: the loop over the start
  index \<open>i\<close>, collecting the chunks in order.
\<close>

function chunks_from :: "nat \<Rightarrow> pystr \<Rightarrow> pystr list" where
  "chunks_from i text =
     (if i < length text then take 800 (drop i text) # chunks_from (i + 800) text else [])"
  by pat_completeness auto
termination
  by (relation "measure (\<lambda>(i, text). length text - i)") auto

declare chunks_from.simps [simp del]

definition chunks :: "pystr \<Rightarrow> pystr list" where
  "chunks text = chunks_from 0 text"

section \<open>Aggregation\<close>

text \<open>
  The two statements of \<open>main\<close> before the file is written:
  \<open>all_lines = [clean_text(x) for x in all_lines if x and x.strip()]\<close> and
  \<open>all_lines = dedupe_keep_order(all_lines)\<close>. The file's content is
  \<open>"\n".join(all_lines)\<close>.
\<close>

definition normalize_lines :: "pystr list \<Rightarrow> pystr list" where
  "normalize_lines all_lines =
     map clean_text (filter (\<lambda>x. x \<noteq> [] \<and> strip x \<noteq> []) all_lines)"

definition aggregate :: "pystr list \<Rightarrow> pystr list" where
  "aggregate all_lines = dedupe_keep_order (normalize_lines all_lines)"

definition file_content :: "pystr list \<Rightarrow> pystr" where
  "file_content all_lines = join [10] all_lines"

section \<open>Values, exceptions and the outside world\<close>

text \<open>
  What \<open>yaml.safe_load\<close> and \<open>json.loads\<close> return: the JSON-like Python values. A dict
  keeps its insertion order, so it is a list of key-value pairs; keys are strings.
\<close>

datatype json =
    JNull
  | JBool bool
  | JInt int
  | JFloat real
  | JStr pystr
  | JList "json list"
  | JDict "(pystr \<times> json) list"

text \<open>Python's truth value, as \<open>if x\<close>, \<open>not x\<close> and \<open>x or y\<close> test it.\<close>

fun truthy :: "json \<Rightarrow> bool" where
  "truthy JNull = False"
| "truthy (JBool b) = b"
| "truthy (JInt n) = (n \<noteq> 0)"
| "truthy (JFloat x) = (x \<noteq> 0)"
| "truthy (JStr s) = (s \<noteq> [])"
| "truthy (JList xs) = (xs \<noteq> [])"
| "truthy (JDict kvs) = (kvs \<noteq> [])"

definition py_or :: "json \<Rightarrow> json \<Rightarrow> json" where
  "py_or a b = (if truthy a then a else b)"

text \<open>\<open>d.get(k, default)\<close> and \<open>d.get(k)\<close>, whose default is \<open>None\<close>, on the pairs of a dict.\<close>

definition dget_default :: "(pystr \<times> json) list \<Rightarrow> pystr \<Rightarrow> json \<Rightarrow> json" where
  "dget_default kvs k d = (case map_of kvs k of None \<Rightarrow> d | Some v \<Rightarrow> v)"

definition dget :: "(pystr \<times> json) list \<Rightarrow> pystr \<Rightarrow> json" where
  "dget kvs k = dget_default kvs k JNull"

text \<open>\<open>d.setdefault(k, v)\<close>: a missing key is added at the end.\<close>

definition setdefault :: "(pystr \<times> json) list \<Rightarrow> pystr \<Rightarrow> json \<Rightarrow> (pystr \<times> json) list" where
  "setdefault kvs k v = (if map_of kvs k = None then kvs @ [(k, v)] else kvs)"

datatype exc =
    YAMLError
  | AttributeError
  | TypeError
  | TransportError
  | HTTPStatusError
  | JSONDecodeError
  | RetryError
  | UnicodeEncodeError

text \<open>
  \<open>for x in v\<close>: a list gives its elements, a string its characters, a dict its keys;
  the other values are not iterable.
\<close>

definition py_iter :: "json \<Rightarrow> exc + json list" where
  "py_iter v =
     (case v of
        JList xs \<Rightarrow> Inr xs
      | JStr s \<Rightarrow> Inr (map (\<lambda>c. JStr [c]) s)
      | JDict kvs \<Rightarrow> Inr (map (\<lambda>kv. JStr (fst kv)) kvs)
      | _ \<Rightarrow> Inl TypeError)"

text \<open>
  The HTTP requests the program makes, and what it reads of a response: the status
  code and the body (\<open>r.text\<close>).
\<close>

datatype request =
    POST_scrape json
  | POST_crawl json
  | GET json
  | POST_actor json json

record response =
  status_code :: nat
  body :: pystr

text \<open>
  Everything the program takes from outside: the environment variables, the content of
  \<open>sources.yaml\<close> (\<open>None\<close> when the file does not exist), the parsers of PyYAML and of
  the \<open>json\<close> module, the network (the answer to a request may depend on the requests
  made before it; \<open>Inl\<close> is an exception raised by the client), BeautifulSoup's
  \<open>get_text(" ")\<close> after the script, style and noscript elements are removed, and
  \<open>str()\<close> on a value that is not a string. Messages printed to stderr and the progress
  bar are left out.
\<close>

record world =
  getenv :: "pystr \<Rightarrow> pystr option"
  sources_file :: "pystr option"
  yaml_safe_load :: "pystr \<Rightarrow> exc + json"
  json_loads :: "pystr \<Rightarrow> exc + json"
  http :: "request list \<Rightarrow> request \<Rightarrow> exc + response"
  soup_get_text :: "pystr \<Rightarrow> pystr"
  py_str :: "json \<Rightarrow> pystr"

definition getenv_or :: "(pystr \<Rightarrow> pystr option) \<Rightarrow> pystr \<Rightarrow> pystr \<Rightarrow> pystr" where
  "getenv_or env name d = (case env name of None \<Rightarrow> d | Some v \<Rightarrow> v)"

definition FIRECRAWL_API_KEY :: "world \<Rightarrow> pystr" where
  "FIRECRAWL_API_KEY w = getenv_or (getenv w) (str ''FIRECRAWL_API_KEY'') []"

definition APIFY_TOKEN :: "world \<Rightarrow> pystr" where
  "APIFY_TOKEN w = getenv_or (getenv w) (str ''APIFY_TOKEN'') []"

text \<open>A request is appended to the list of requests made so far, and answered.\<close>

definition http_call :: "world \<Rightarrow> request list \<Rightarrow> request \<Rightarrow> (exc + response) \<times> request list" where
  "http_call w tr req = (http w tr req, tr @ [req])"

text \<open>\<open>r.raise_for_status()\<close> raises unless the status is 2xx.\<close>

definition is_success :: "response \<Rightarrow> bool" where
  "is_success r = (200 \<le> status_code r \<and> status_code r < 300)"

text \<open>How a value appears in an f-string.\<close>

definition fmt :: "world \<Rightarrow> json \<Rightarrow> pystr" where
  "fmt w v = (case v of JStr s \<Rightarrow> s | _ \<Rightarrow> py_str w v)"

text \<open>
  \<open>@retry(stop=stop_after_attempt(3), ...)\<close>: the call is repeated while it raises, at
  most \<open>n\<close> times in all, and then \<open>RetryError\<close> is raised. The waits are not modelled.
\<close>

fun retry :: "nat \<Rightarrow> (request list \<Rightarrow> (exc + 'a) \<times> request list) \<Rightarrow> request list \<Rightarrow>
    (exc + 'a) \<times> request list" where
  "retry 0 f tr = (Inl RetryError, tr)"
| "retry (Suc n) f tr =
     (case f tr of
        (Inr v, tr') \<Rightarrow> (Inr v, tr')
      | (Inl e, tr') \<Rightarrow> retry n f tr')"

section \<open>The source loader\<close>

text \<open>
  \<open>read_sources\<close>. \<open>yaml.safe_load\<close> is not inside any \<open>try\<close>, so what it raises leaves
  the function; \<open>setdefault\<close> exists on a dict only.
\<close>

definition empty_config :: json where
  "empty_config = JDict [(str ''web'', JList []), (str ''apify'', JList [])]"

definition read_sources :: "world \<Rightarrow> exc + json" where
  "read_sources w =
     (case sources_file w of
        None \<Rightarrow> Inr empty_config
      | Some content \<Rightarrow>
          (case yaml_safe_load w content of
             Inl e \<Rightarrow> Inl e
           | Inr loaded \<Rightarrow>
               (case py_or loaded (JDict []) of
                  JDict kvs \<Rightarrow>
                    Inr (JDict (setdefault (setdefault kvs (str ''web'') (JList []))
                                  (str ''apify'') (JList [])))
                | _ \<Rightarrow> Inl AttributeError)))"

section \<open>Placeholders\<close>

text \<open>
  \<open>re.sub(r"\$\{ENV:([A-Za-z_][A-Za-z0-9_]*)\}", _subst, obj)\<close>: the string is scanned
  from the left; where the pattern matches, the match is replaced by the value of the
  variable (the empty string when it is not set) and the scan goes on after the match.
\<close>

definition is_ident_start :: "nat \<Rightarrow> bool" where
  "is_ident_start c = ((65 \<le> c \<and> c \<le> 90) \<or> (97 \<le> c \<and> c \<le> 122) \<or> c = 95)"

definition is_ident_char :: "nat \<Rightarrow> bool" where
  "is_ident_char c = (is_ident_start c \<or> (48 \<le> c \<and> c \<le> 57))"

definition match_placeholder :: "pystr \<Rightarrow> (pystr \<times> pystr) option" where
  "match_placeholder s =
     (if take 6 s = str ''${ENV:'' then
        (let var = takeWhile is_ident_char (drop 6 s);
             rest = dropWhile is_ident_char (drop 6 s)
         in if var \<noteq> [] \<and> is_ident_start (hd var) \<and> rest \<noteq> [] \<and> hd rest = 125
            then Some (var, tl rest) else None)
      else None)"

function env_sub :: "(pystr \<Rightarrow> pystr option) \<Rightarrow> pystr \<Rightarrow> pystr" where
  "env_sub env [] = []"
| "env_sub env (c # cs) =
     (case match_placeholder (c # cs) of
        Some (var, rest) \<Rightarrow> getenv_or env var [] @ env_sub env rest
      | None \<Rightarrow> c # env_sub env cs)"
  by pat_completeness auto
termination
proof (relation "measure (\<lambda>(env, s). length s)")
  show "wf (measure (\<lambda>(env :: pystr \<Rightarrow> pystr option, s :: pystr). length s))" by simp
next
  fix env :: "pystr \<Rightarrow> pystr option" and c cs x2 var rest
  assume "match_placeholder (c # cs) = Some x2" and "(var, rest) = x2"
  then have "rest = tl (dropWhile is_ident_char (drop 6 (c # cs)))"
    by (auto simp: match_placeholder_def Let_def split: if_splits)
  then have "length rest \<le> length (drop 6 (c # cs))"
    using length_dropWhile_le [of is_ident_char "drop 6 (c # cs)"] by simp
  then show "((env, rest), env, c # cs) \<in> measure (\<lambda>(env, s). length s)" by simp
qed simp

fun resolve_env_placeholders :: "(pystr \<Rightarrow> pystr option) \<Rightarrow> json \<Rightarrow> json" where
  "resolve_env_placeholders env (JDict kvs) =
     JDict (map (\<lambda>(k, v). (k, resolve_env_placeholders env v)) kvs)"
| "resolve_env_placeholders env (JList xs) = JList (map (resolve_env_placeholders env) xs)"
| "resolve_env_placeholders env (JStr s) = JStr (env_sub env s)"
| "resolve_env_placeholders env obj = obj"

section \<open>The web fetcher\<close>

definition extract_text_from_html :: "world \<Rightarrow> pystr \<Rightarrow> pystr" where
  "extract_text_from_html w html = clean_text (soup_get_text w html)"

text \<open>\<open>simple_fetch\<close>: one attempt, and the three attempts of the decorator.\<close>

definition simple_fetch_once :: "world \<Rightarrow> json \<Rightarrow> request list \<Rightarrow> (exc + pystr) \<times> request list" where
  "simple_fetch_once w url tr =
     (case http_call w tr (GET url) of
        (Inl e, tr') \<Rightarrow> (Inl e, tr')
      | (Inr r, tr') \<Rightarrow> (if is_success r then Inr (body r) else Inl HTTPStatusError, tr'))"

definition simple_fetch :: "world \<Rightarrow> json \<Rightarrow> request list \<Rightarrow> (exc + pystr) \<times> request list" where
  "simple_fetch w url tr = retry 3 (simple_fetch_once w url) tr"

definition firecrawl_enabled :: "world \<Rightarrow> bool" where
  "firecrawl_enabled w = (FIRECRAWL_API_KEY w \<noteq> [])"

text \<open>
  The first \<open>try\<close> block of \<open>firecrawl_scrape\<close>, after the request: the text it returns,
  or \<open>None\<close> when it is left without a \<open>return\<close>, by falling through or by an exception.
\<close>

definition scrape_text :: "world \<Rightarrow> exc + response \<Rightarrow> pystr option" where
  "scrape_text w res =
     (case res of
        Inl e \<Rightarrow> None
      | Inr r \<Rightarrow>
          if status_code r = 200 then
            (case json_loads w (body r) of
               Inl e \<Rightarrow> None
             | Inr (JDict kvs) \<Rightarrow>
                 (case py_or (py_or (dget kvs (str ''text'')) (dget kvs (str ''markdown'')))
                         (dget kvs (str ''content'')) of
                    JStr s \<Rightarrow> if strip s \<noteq> [] then Some s else None
                  | _ \<Rightarrow> None)
             | Inr _ \<Rightarrow> None)
          else None)"

text \<open>
  The loops over \<open>items\<close> and the four keys in the second \<open>try\<close> block. \<open>it.get\<close> raises
  on an item that is not a dict.
\<close>

definition item_parts :: "(pystr \<times> json) list \<Rightarrow> pystr list" where
  "item_parts kvs =
     concat (map (\<lambda>k. case dget kvs k of JStr s \<Rightarrow> [s] | _ \<Rightarrow> [])
       [str ''text'', str ''markdown'', str ''content'', str ''rawText''])"

fun crawl_parts :: "pystr list \<Rightarrow> json list \<Rightarrow> exc + pystr list" where
  "crawl_parts parts [] = Inr parts"
| "crawl_parts parts (JDict kvs # items) = crawl_parts (parts @ item_parts kvs) items"
| "crawl_parts parts (it # items) = Inl AttributeError"

definition crawl_text :: "world \<Rightarrow> exc + response \<Rightarrow> pystr option" where
  "crawl_text w res =
     (case res of
        Inl e \<Rightarrow> None
      | Inr r \<Rightarrow>
          if status_code r = 200 then
            (case json_loads w (body r) of
               Inl e \<Rightarrow> None
             | Inr (JDict kvs) \<Rightarrow>
                 (case py_or (py_or (dget kvs (str ''items'')) (dget kvs (str ''pages''))) (JList []) of
                    JList items \<Rightarrow>
                      if items \<noteq> [] then
                        (case crawl_parts [] items of
                           Inl e \<Rightarrow> None
                         | Inr parts \<Rightarrow> if parts \<noteq> [] then Some (join [10, 10] parts) else None)
                      else None
                  | _ \<Rightarrow> None)
             | Inr _ \<Rightarrow> if strip (body r) \<noteq> [] then Some (body r) else None)
          else None)"

text \<open>
  The body of \<open>firecrawl_scrape\<close> and the function under its decorator. The client is
  built with the key in its \<open>Authorization\<close> header before the first \<open>try\<close>; httpx encodes
  a header value as ASCII, so a key with a character beyond ASCII makes the body raise
  before any request. Everything after that is inside a \<open>try\<close>.
\<close>

definition header_encodable :: "pystr \<Rightarrow> bool" where
  "header_encodable s = list_all (\<lambda>c. c < 128) s"

definition firecrawl_scrape_once :: "world \<Rightarrow> json \<Rightarrow> request list \<Rightarrow>
    (exc + pystr option) \<times> request list" where
  "firecrawl_scrape_once w url tr =
     (if \<not> firecrawl_enabled w then (Inr None, tr)
      else if \<not> header_encodable (FIRECRAWL_API_KEY w) then (Inl UnicodeEncodeError, tr)
      else
        (case http_call w tr (POST_scrape url) of
           (res1, tr1) \<Rightarrow>
             (case scrape_text w res1 of
                Some t \<Rightarrow> (Inr (Some t), tr1)
              | None \<Rightarrow>
                  (case http_call w tr1 (POST_crawl url) of
                     (res2, tr2) \<Rightarrow> (Inr (crawl_text w res2), tr2)))))"

definition firecrawl_scrape :: "world \<Rightarrow> json \<Rightarrow> request list \<Rightarrow>
    (exc + pystr option) \<times> request list" where
  "firecrawl_scrape w url tr = retry 3 (firecrawl_scrape_once w url) tr"

text \<open>
  \<open>build_lines_from_web\<close>, one URL: the text obtained (the first half of the loop body),
  then the lines appended for it.
\<close>

definition has_text :: "pystr option \<Rightarrow> bool" where
  "has_text t = (case t of None \<Rightarrow> False | Some s \<Rightarrow> s \<noteq> [])"

definition web_text :: "world \<Rightarrow> json \<Rightarrow> request list \<Rightarrow> pystr option \<times> request list" where
  "web_text w url tr =
     (case firecrawl_scrape w url tr of
        (res, tr1) \<Rightarrow>
          (let text = (case res of Inl e \<Rightarrow> None | Inr t \<Rightarrow> t)
           in if \<not> has_text text then
                (case simple_fetch w url tr1 of
                   (Inr html, tr2) \<Rightarrow> (Some (extract_text_from_html w html), tr2)
                 | (Inl e, tr2) \<Rightarrow> (None, tr2))
              else (text, tr1)))"

definition web_prefix :: "world \<Rightarrow> json \<Rightarrow> pystr" where
  "web_prefix w url = str ''SRC:WEB '' @ fmt w url @ str '' | ''"

definition web_lines :: "world \<Rightarrow> json \<Rightarrow> pystr option \<Rightarrow> pystr list" where
  "web_lines w url text =
     (case text of
        None \<Rightarrow> []
      | Some t \<Rightarrow>
          if t \<noteq> [] then map (\<lambda>chunk. web_prefix w url @ chunk) (chunks (clean_text t))
          else [])"

fun web_loop :: "world \<Rightarrow> pystr list \<Rightarrow> json list \<Rightarrow> request list \<Rightarrow> pystr list \<times> request list" where
  "web_loop w lines [] tr = (lines, tr)"
| "web_loop w lines (url # urls) tr =
     (case web_text w url tr of
        (text, tr') \<Rightarrow> web_loop w (lines @ web_lines w url text) urls tr')"

definition build_lines_from_web :: "world \<Rightarrow> json \<Rightarrow> request list \<Rightarrow>
    (exc + pystr list) \<times> request list" where
  "build_lines_from_web w urls tr =
     (case py_iter urls of
        Inl e \<Rightarrow> (Inl e, tr)
      | Inr us \<Rightarrow> (case web_loop w [] us tr of (lines, tr') \<Rightarrow> (Inr lines, tr')))"

section \<open>The actor fetcher\<close>

definition apify_enabled :: "world \<Rightarrow> bool" where
  "apify_enabled w = (APIFY_TOKEN w \<noteq> [])"

text \<open>
  \<open>r.text.splitlines()\<close>: a line ends at a line feed, a carriage return (with the line
  feed after it, if any), a vertical tab, a form feed, a separator 28 to 30, a next
  line, or a Unicode line or paragraph separator.
\<close>

definition is_linebreak :: "nat \<Rightarrow> bool" where
  "is_linebreak c =
     ((10 \<le> c \<and> c \<le> 13) \<or> (28 \<le> c \<and> c \<le> 30) \<or> c = 133 \<or> c = 8232 \<or> c = 8233)"

fun splitlines_from :: "pystr \<Rightarrow> pystr \<Rightarrow> pystr list" where
  "splitlines_from cur [] = (if cur = [] then [] else [cur])"
| "splitlines_from cur (c # cs) =
     (if is_linebreak c then
        cur # (case cs of
                 [] \<Rightarrow> []
               | d # ds \<Rightarrow> if c = 13 \<and> d = 10 then splitlines_from [] ds
                           else splitlines_from [] (d # ds))
      else splitlines_from (cur @ [c]) cs)"

definition splitlines :: "pystr \<Rightarrow> pystr list" where
  "splitlines s = splitlines_from [] s"

text \<open>The loop of \<open>apify_run_sync\<close> over the lines of a body that is not a JSON array.\<close>

fun ndjson_items :: "world \<Rightarrow> json list \<Rightarrow> pystr list \<Rightarrow> json list" where
  "ndjson_items w items [] = items"
| "ndjson_items w items (line # lines) =
     (if strip line = [] then ndjson_items w items lines
      else
        (case json_loads w (strip line) of
           Inr v \<Rightarrow> ndjson_items w (items @ [v]) lines
         | Inl e \<Rightarrow> ndjson_items w items lines))"

definition apify_run_sync_once :: "world \<Rightarrow> json \<Rightarrow> json \<Rightarrow> request list \<Rightarrow>
    (exc + json list) \<times> request list" where
  "apify_run_sync_once w actor actor_input tr =
     (if \<not> apify_enabled w then (Inr [], tr)
      else
        (case http_call w tr (POST_actor actor actor_input) of
           (Inl e, tr') \<Rightarrow> (Inl e, tr')
         | (Inr r, tr') \<Rightarrow>
             if \<not> is_success r then (Inl HTTPStatusError, tr')
             else
               (case json_loads w (body r) of
                  Inr (JList data) \<Rightarrow> (Inr data, tr')
                | _ \<Rightarrow> (Inr (ndjson_items w [] (splitlines (body r))), tr'))))"

definition apify_run_sync :: "world \<Rightarrow> json \<Rightarrow> json \<Rightarrow> request list \<Rightarrow>
    (exc + json list) \<times> request list" where
  "apify_run_sync w actor actor_input tr = retry 3 (apify_run_sync_once w actor actor_input) tr"

text \<open>\<open>extract_apify_text_fields\<close>: its two loops over \<open>candidates\<close>, and the function.\<close>

definition priority_keys :: "pystr list" where
  "priority_keys =
     [str ''caption'', str ''text'', str ''summary'', str ''title'', str ''description'',
      str ''alt'', str ''content'']"

fun priority_loop :: "(pystr \<times> json) list \<Rightarrow> pystr list \<Rightarrow> pystr list \<Rightarrow> pystr list" where
  "priority_loop item candidates [] = candidates"
| "priority_loop item candidates (key # keys) =
     (case dget item key of
        JStr val \<Rightarrow>
          if strip val \<noteq> [] then priority_loop item (candidates @ [strip val]) keys
          else priority_loop item candidates keys
      | _ \<Rightarrow> priority_loop item candidates keys)"

fun fallback_loop :: "pystr list \<Rightarrow> (pystr \<times> json) list \<Rightarrow> pystr list" where
  "fallback_loop candidates [] = candidates"
| "fallback_loop candidates ((k, v) # kvs) =
     (case v of
        JStr s \<Rightarrow>
          if length s > 20 then fallback_loop (candidates @ [s]) kvs
          else fallback_loop candidates kvs
      | _ \<Rightarrow> fallback_loop candidates kvs)"

definition extract_apify_text_fields :: "json \<Rightarrow> exc + pystr" where
  "extract_apify_text_fields item =
     (case item of
        JDict kvs \<Rightarrow>
          (let candidates = priority_loop kvs [] priority_keys;
               candidates = (if candidates = [] then fallback_loop candidates kvs else candidates)
           in Inr (if candidates \<noteq> [] then clean_text (join (str '' '') candidates) else []))
      | _ \<Rightarrow> Inl AttributeError)"

text \<open>
  \<open>build_lines_from_apify\<close>: the source identifier of a record, the lines of one record
  (the body of the loop over \<open>items\<close>), that loop, which an exception ends while the
  lines appended so far stay, and the loop over the actor descriptors.
\<close>

definition item_src :: "json \<Rightarrow> (pystr \<times> json) list \<Rightarrow> json" where
  "item_src actor kvs =
     py_or (py_or (py_or (dget kvs (str ''url'')) (dget kvs (str ''link'')))
              (dget kvs (str ''permalink''))) actor"

definition apify_prefix :: "world \<Rightarrow> json \<Rightarrow> pystr" where
  "apify_prefix w src = str ''SRC:APIFY '' @ fmt w src @ str '' | ''"

definition item_lines :: "world \<Rightarrow> json \<Rightarrow> json \<Rightarrow> exc + pystr list" where
  "item_lines w actor it =
     (case extract_apify_text_fields it of
        Inl e \<Rightarrow> Inl e
      | Inr txt \<Rightarrow>
          (case it of
             JDict kvs \<Rightarrow>
               Inr (if txt \<noteq> [] then
                      map (\<lambda>chunk. apify_prefix w (item_src actor kvs) @ chunk) (chunks txt)
                    else [])
           | _ \<Rightarrow> Inl AttributeError))"

fun items_loop :: "world \<Rightarrow> json \<Rightarrow> pystr list \<Rightarrow> json list \<Rightarrow> pystr list" where
  "items_loop w actor lines [] = lines"
| "items_loop w actor lines (it # items) =
     (case item_lines w actor it of
        Inl e \<Rightarrow> lines
      | Inr ls \<Rightarrow> items_loop w actor (lines @ ls) items)"

fun apify_loop :: "world \<Rightarrow> pystr list \<Rightarrow> json list \<Rightarrow> request list \<Rightarrow>
    (exc + pystr list) \<times> request list" where
  "apify_loop w lines [] tr = (Inr lines, tr)"
| "apify_loop w lines (JDict kvs # cfgs) tr =
     (let actor = dget kvs (str ''actor'');
          actor_input = resolve_env_placeholders (getenv w) (dget_default kvs (str ''input'') (JDict []))
      in if \<not> truthy actor then apify_loop w lines cfgs tr
         else
           (case apify_run_sync w actor actor_input tr of
              (Inl e, tr') \<Rightarrow> apify_loop w lines cfgs tr'
            | (Inr items, tr') \<Rightarrow> apify_loop w (items_loop w actor lines items) cfgs tr'))"
| "apify_loop w lines (cfg # cfgs) tr = (Inl AttributeError, tr)"

definition build_lines_from_apify :: "world \<Rightarrow> json \<Rightarrow> request list \<Rightarrow>
    (exc + pystr list) \<times> request list" where
  "build_lines_from_apify w apify_cfg tr =
     (if \<not> truthy apify_cfg then (Inr [], tr)
      else
        (case py_iter apify_cfg of
           Inl e \<Rightarrow> (Inl e, tr)
         | Inr cfgs \<Rightarrow> apify_loop w [] cfgs tr))"

section \<open>The run\<close>

text \<open>
  \<open>main\<close>: \<open>Inr\<close> of the lines written to the output file when it returns 0, \<open>Inl\<close> of the
  exception that ends the run otherwise; with it, the requests made. The write
  \<open>OUT_TXT.write_text("\n".join(all_lines), encoding="utf-8")\<close> is outside any \<open>try\<close> and
  raises when the content cannot be encoded, that is when it holds a surrogate code
  point (55296 to 57343). Creating the directory and the file system's part of the write
  are taken to succeed.
\<close>

definition utf8_encodable :: "pystr \<Rightarrow> bool" where
  "utf8_encodable s = list_all (\<lambda>c. c < 55296 \<or> 57343 < c) s"

definition write_text :: "pystr list \<Rightarrow> exc + pystr list" where
  "write_text all_lines =
     (if utf8_encodable (file_content all_lines) then Inr all_lines
      else Inl UnicodeEncodeError)"

definition web_stage :: "world \<Rightarrow> json \<Rightarrow> (exc + pystr list) \<times> request list" where
  "web_stage w web_urls =
     (if truthy web_urls then build_lines_from_web w web_urls [] else (Inr [], []))"

definition apify_stage :: "world \<Rightarrow> json \<Rightarrow> request list \<Rightarrow> (exc + pystr list) \<times> request list" where
  "apify_stage w apify_cfg tr =
     (if truthy apify_cfg \<and> apify_enabled w then build_lines_from_apify w apify_cfg tr
      else (Inr [], tr))"

definition main :: "world \<Rightarrow> (exc + pystr list) \<times> request list" where
  "main w =
     (case read_sources w of
        Inl e \<Rightarrow> (Inl e, [])
      | Inr cfg \<Rightarrow>
          (case cfg of
             JDict kvs \<Rightarrow>
               (let web_urls = dget_default kvs (str ''web'') (JList []);
                    apify_cfg = dget_default kvs (str ''apify'') (JList [])
                in case web_stage w web_urls of
                     (Inl e, tr1) \<Rightarrow> (Inl e, tr1)
                   | (Inr web, tr1) \<Rightarrow>
                       (case apify_stage w apify_cfg tr1 of
                          (Inl e, tr2) \<Rightarrow> (Inl e, tr2)
                        | (Inr api, tr2) \<Rightarrow> (write_text (aggregate (web @ api)), tr2)))
           | _ \<Rightarrow> (Inl AttributeError, [])))"

section \<open>Notions used in the statements\<close>

text \<open>
  A word is a non-empty string without whitespace. A string is whitespace-normalized
  when its only whitespace is the space character, never two in a row and none at
  either end.
\<close>

definition is_word :: "pystr \<Rightarrow> bool" where
  "is_word s = (s \<noteq> [] \<and> (\<forall>c \<in> set s. \<not> is_space c))"

fun no_double_space :: "pystr \<Rightarrow> bool" where
  "no_double_space [] = True"
| "no_double_space [x] = True"
| "no_double_space (x # y # ys) = (\<not> (x = 32 \<and> y = 32) \<and> no_double_space (y # ys))"

definition is_normalized :: "pystr \<Rightarrow> bool" where
  "is_normalized s =
     ((\<forall>c \<in> set s. is_space c \<longrightarrow> c = 32) \<and> no_double_space s \<and>
      (s \<noteq> [] \<longrightarrow> hd s \<noteq> 32 \<and> last s \<noteq> 32))"

text \<open>The position of the first occurrence of an element (the length when there is none).\<close>

fun first_index :: "'a \<Rightarrow> 'a list \<Rightarrow> nat" where
  "first_index a [] = 0"
| "first_index a (x # xs) = (if x = a then 0 else Suc (first_index a xs))"

text \<open>The structure of a value: the value with every string in it emptied.\<close>

fun shape :: "json \<Rightarrow> json" where
  "shape (JStr s) = JStr []"
| "shape (JList xs) = JList (map shape xs)"
| "shape (JDict kvs) = JDict (map (\<lambda>(k, v). (k, shape v)) kvs)"
| "shape v = v"

text \<open>The requests to the scraping service, and those to the actor platform.\<close>

fun is_firecrawl_request :: "request \<Rightarrow> bool" where
  "is_firecrawl_request (POST_scrape url) = True"
| "is_firecrawl_request (POST_crawl url) = True"
| "is_firecrawl_request r = False"

fun is_actor_request :: "request \<Rightarrow> bool" where
  "is_actor_request (POST_actor actor actor_input) = True"
| "is_actor_request r = False"

text \<open>
  Text extraction as the specification words it: the values of the priority fields
  that are non-empty strings, in the order of the priority list; when there is none,
  every string value longer than 20 characters; joined by one space and normalized.
\<close>

definition spec_priority_values :: "(pystr \<times> json) list \<Rightarrow> pystr list" where
  "spec_priority_values kvs =
     concat (map (\<lambda>k. case map_of kvs k of Some (JStr v) \<Rightarrow> if v \<noteq> [] then [v] else [] | _ \<Rightarrow> [])
       priority_keys)"

definition long_string_values :: "(pystr \<times> json) list \<Rightarrow> pystr list" where
  "long_string_values kvs =
     concat (map (\<lambda>kv. case snd kv of JStr s \<Rightarrow> if length s > 20 then [s] else [] | _ \<Rightarrow> []) kvs)"

definition spec_extract_text :: "(pystr \<times> json) list \<Rightarrow> pystr" where
  "spec_extract_text kvs =
     clean_text (join (str '' '')
       (if spec_priority_values kvs \<noteq> [] then spec_priority_values kvs
        else long_string_values kvs))"

text \<open>
  The same with the test the code makes: a priority field counts when it is a string
  with a character that is not whitespace, and its value is taken stripped.
\<close>

definition nonblank_priority_values :: "(pystr \<times> json) list \<Rightarrow> pystr list" where
  "nonblank_priority_values kvs =
     concat (map (\<lambda>k. case map_of kvs k of
                         Some (JStr v) \<Rightarrow> if strip v \<noteq> [] then [strip v] else []
                       | _ \<Rightarrow> [])
       priority_keys)"

text \<open>
  The source identifier as the specification words it, the value of the first key
  present among \<open>url\<close>, \<open>link\<close>, \<open>permalink\<close>, else the actor; and the first value
  among them that is true, else the actor.
\<close>

definition src_keys :: "pystr list" where
  "src_keys = [str ''url'', str ''link'', str ''permalink'']"

definition spec_item_src :: "json \<Rightarrow> (pystr \<times> json) list \<Rightarrow> json" where
  "spec_item_src actor kvs =
     (case concat (map (\<lambda>k. case map_of kvs k of Some v \<Rightarrow> [v] | None \<Rightarrow> []) src_keys) of
        [] \<Rightarrow> actor
      | v # vs \<Rightarrow> v)"

definition first_truthy_src :: "json \<Rightarrow> (pystr \<times> json) list \<Rightarrow> json" where
  "first_truthy_src actor kvs =
     (case filter truthy (map (dget kvs) src_keys) of
        [] \<Rightarrow> actor
      | v # vs \<Rightarrow> v)"

text \<open>
  A world with nothing in it: no variable set, no \<open>sources.yaml\<close>, parsers and network
  that fail. The examples below change the fields they need.
\<close>

definition bare_world :: world where
  "bare_world =
     \<lparr> getenv = (\<lambda>name. None), sources_file = None,
       yaml_safe_load = (\<lambda>s. Inl YAMLError), json_loads = (\<lambda>s. Inl JSONDecodeError),
       http = (\<lambda>tr req. Inl TransportError), soup_get_text = (\<lambda>html. []),
       py_str = (\<lambda>v. []) \<rparr>"

text \<open>
  A configuration with the one URL \<open>u\<close>, and a world in which the file holds it and
  every request is answered with status 200 by a page whose text is \<open>page\<close>.
\<close>

definition one_url_config :: json where
  "one_url_config = JDict [(str ''web'', JList [JStr (str ''u'')])]"

definition page_world :: "pystr \<Rightarrow> world" where
  "page_world page =
     bare_world
       \<lparr> sources_file := Some (str ''web: [u]''),
         yaml_safe_load := (\<lambda>s. Inr one_url_config),
         http := (\<lambda>tr req. Inr \<lparr> status_code = 200, body = str ''<p>'' \<rparr>),
         soup_get_text := (\<lambda>html. page) \<rparr>"

text \<open>
  The same world with a configuration that also names an actor, and a world whose
  configuration gives a number for \<open>web\<close>.
\<close>

definition one_actor_config :: json where
  "one_actor_config =
     JDict [(str ''web'', JList [JStr (str ''u'')]),
            (str ''apify'',
             JList [JDict [(str ''actor'', JStr (str ''x/y'')), (str ''input'', JDict [])]])]"

definition actor_world :: "pystr \<Rightarrow> world" where
  "actor_world page = (page_world page) \<lparr> yaml_safe_load := (\<lambda>s. Inr one_actor_config) \<rparr>"

definition web_number_world :: world where
  "web_number_world =
     bare_world
       \<lparr> sources_file := Some (str ''web: 5''),
         yaml_safe_load := (\<lambda>s. Inr (JDict [(str ''web'', JInt 5)])) \<rparr>"

section \<open>Properties\<close>

lemma is_space_32 [simp]: "is_space 32" by (simp add: is_space_def)
lemma is_space_10 [simp]: "is_space 10" by (simp add: is_space_def)
lemma str_space [simp]: "str '' '' = [32]" by (simp add: str_def)

lemma split_ws_Nil [simp]: "split_ws [] = []"
  by (simp add: split_ws.simps)

lemma split_ws_space: "is_space c \<Longrightarrow> split_ws (c # s) = split_ws s"
  by (subst split_ws.simps, subst (2) split_ws.simps) simp

lemma split_ws_word:
  assumes "is_word w" and "r = [] \<or> is_space (hd r)"
  shows "split_ws (w @ r) = w # split_ws r"
proof -
  from assms(1) obtain c cs where w: "w = c # cs" and c: "\<not> is_space c"
    by (cases w) (auto simp: is_word_def)
  have d: "dropWhile is_space (w @ r) = w @ r" using w c by simp
  have t: "takeWhile (\<lambda>x. \<not> is_space x) (w @ r) = w"
    using assms by (cases r) (auto simp: is_word_def takeWhile_append2 takeWhile_eq_all_conv)
  have e: "dropWhile (\<lambda>x. \<not> is_space x) (w @ r) = r"
    using assms by (cases r) (auto simp: is_word_def dropWhile_append2)
  show ?thesis
    using d t e w by (subst split_ws.simps) (simp del: dropWhile.simps takeWhile.simps add: d [unfolded w, simplified] )
qed

lemma split_ws_words: "w \<in> set (split_ws s) \<Longrightarrow> is_word w"
proof (induction s rule: split_ws.induct)
  case (1 s)
  show ?case
  proof (cases "dropWhile is_space s")
    case Nil
    with "1.prems" show ?thesis by (simp add: split_ws.simps)
  next
    case (Cons c cs)
    have c: "\<not> is_space c" using Cons hd_dropWhile [of is_space s] by auto
    from "1.prems" Cons have
      "w = takeWhile (\<lambda>x. \<not> is_space x) (c # cs) \<or>
       w \<in> set (split_ws (dropWhile (\<lambda>x. \<not> is_space x) (c # cs)))"
      by (subst (asm) split_ws.simps) simp
    then show ?thesis
    proof
      assume "w = takeWhile (\<lambda>x. \<not> is_space x) (c # cs)"
      then show ?thesis using c by (auto simp: is_word_def dest: set_takeWhileD)
    next
      assume "w \<in> set (split_ws (dropWhile (\<lambda>x. \<not> is_space x) (c # cs)))"
      then show ?thesis using "1.IH" [OF Cons] by simp
    qed
  qed
qed

lemma split_ws_join: "\<forall>w \<in> set ws. is_word w \<Longrightarrow> split_ws (join [32] ws) = ws"
proof (induction "[32::nat]" ws rule: join.induct)
  case 1
  then show ?case by simp
next
  case (2 x)
  then show ?case using split_ws_word [of x "[]"] by simp
next
  case (3 x y ys)
  have "split_ws (x @ 32 # join [32] (y # ys)) = x # split_ws (32 # join [32] (y # ys))"
    using 3 split_ws_word [of x "32 # join [32] (y # ys)"] by simp
  then show ?case using 3 by (simp add: split_ws_space)
qed

lemma join_words_ends:
  "\<forall>w \<in> set ws. is_word w \<Longrightarrow> ws \<noteq> [] \<Longrightarrow>
     join [32] ws \<noteq> [] \<and> \<not> is_space (hd (join [32] ws)) \<and> \<not> is_space (last (join [32] ws))"
proof (induction "[32::nat]" ws rule: join.induct)
  case 1
  then show ?case by simp
next
  case (2 x)
  then show ?case by (auto simp: is_word_def)
next
  case (3 x y ys)
  then show ?case by (auto simp: is_word_def)
qed

lemma strip_id: "s \<noteq> [] \<Longrightarrow> \<not> is_space (hd s) \<Longrightarrow> \<not> is_space (last s) \<Longrightarrow> strip s = s"
proof -
  assume a: "s \<noteq> []" "\<not> is_space (hd s)" "\<not> is_space (last s)"
  have "dropWhile is_space s = s" using a by (cases s) auto
  moreover have "dropWhile is_space (rev s) = rev s"
    using a by (cases "rev s") (auto simp: last_rev [symmetric] hd_rev)
  ultimately show ?thesis by (simp add: strip_def)
qed

lemma strip_Nil [simp]: "strip [] = []" by (simp add: strip_def)

lemma strip_join_words: "\<forall>w \<in> set ws. is_word w \<Longrightarrow> strip (join [32] ws) = join [32] ws"
  using join_words_ends [of ws] strip_id [of "join [32] ws"] by (cases "ws = []") auto

lemma clean_text_join: "clean_text s = join [32] (split_ws s)"
  using strip_join_words [of "split_ws s"] split_ws_words by (auto simp: clean_text_def)

lemma clean_text_idem: "clean_text (clean_text s) = clean_text s"
  using split_ws_join [of "split_ws s"] split_ws_words by (auto simp: clean_text_join)

lemma join_words_spaces:
  "\<forall>w \<in> set ws. is_word w \<Longrightarrow> c \<in> set (join [32] ws) \<Longrightarrow> is_space c \<Longrightarrow> c = 32"
  by (induction "[32::nat]" ws rule: join.induct) (auto simp: is_word_def)

lemma clean_text_spaces: "c \<in> set (clean_text s) \<Longrightarrow> is_space c \<Longrightarrow> c = 32"
  using join_words_spaces [of "split_ws s" c] split_ws_words by (auto simp: clean_text_join)

lemma no_double_space_tl: "no_double_space (x # xs) \<Longrightarrow> no_double_space xs"
  by (cases xs) auto

lemma no_double_space_append: "no_double_space (xs @ ys) \<Longrightarrow> no_double_space ys"
  by (induction xs) (auto dest: no_double_space_tl)

lemma is_normalized_clean: "is_normalized s \<Longrightarrow> join [32] (split_ws s) = s"
proof (induction "length s" arbitrary: s rule: less_induct)
  case less
  show ?case
  proof (cases s)
    case Nil
    then show ?thesis by simp
  next
    case (Cons c cs)
    define w where "w = takeWhile (\<lambda>x. \<not> is_space x) s"
    define r where "r = dropWhile (\<lambda>x. \<not> is_space x) s"
    have s: "s = w @ r" by (simp add: w_def r_def)
    have only: "\<And>x. x \<in> set s \<Longrightarrow> is_space x \<Longrightarrow> x = 32"
      using less.prems by (auto simp: is_normalized_def)
    have "\<not> is_space c" using less.prems Cons only [of c] by (auto simp: is_normalized_def)
    then have w: "is_word w"
      using Cons by (auto simp: w_def is_word_def dest: set_takeWhileD)
    have hr: "r = [] \<or> is_space (hd r)"
      using hd_dropWhile [of "\<lambda>x. \<not> is_space x" s] by (auto simp: r_def)
    show ?thesis
    proof (cases r)
      case Nil
      then show ?thesis using s w split_ws_word [of w "[]"] by simp
    next
      case rc: (Cons d r')
      have "is_space d" using hr rc by simp
      moreover have "d \<in> set s" using s rc by simp
      ultimately have d: "d = 32" using only by blast
      have wne: "w \<noteq> []" using w by (simp add: is_word_def)
      have r'ne: "r' \<noteq> []"
      proof
        assume "r' = []"
        then have "last s = 32" using s rc d by simp
        then show False using less.prems Cons by (simp add: is_normalized_def)
      qed
      have nds: "no_double_space (32 # r')"
        using less.prems s rc d no_double_space_append [of w "32 # r'"]
        by (simp add: is_normalized_def)
      then have hd32: "hd r' \<noteq> 32" using r'ne by (cases r') auto
      have "last r' = last s" using s rc r'ne by simp
      then have "last r' \<noteq> 32" using less.prems Cons by (simp add: is_normalized_def)
      moreover have "\<forall>x \<in> set r'. is_space x \<longrightarrow> x = 32" using only s rc by auto
      moreover have "no_double_space r'" using nds no_double_space_tl by blast
      ultimately have nr': "is_normalized r'" using hd32 by (simp add: is_normalized_def)
      have "length r' < length s" using s rc by simp
      then have ih: "join [32] (split_ws r') = r'" using less.hyps nr' by blast
      have "\<not> is_space (hd r')" using hd32 nr' r'ne by (cases r') (auto simp: is_normalized_def)
      then have "dropWhile is_space r' \<noteq> []" using r'ne by (cases r') auto
      then have ne: "split_ws r' \<noteq> []" by (subst split_ws.simps) (simp split: list.splits)
      have "split_ws s = w # split_ws r'"
        using s rc d w split_ws_word [of w r] hr split_ws_space [of 32 r'] by simp
      then have "join [32] (split_ws s) = w @ 32 # join [32] (split_ws r')"
        using ne by (cases "split_ws r'") auto
      then show ?thesis using ih s rc d by simp
    qed
  qed
qed

lemma clean_text_normalized: "is_normalized s \<Longrightarrow> clean_text s = s"
  by (simp add: clean_text_join is_normalized_clean)

lemma no_double_space_join:
  "no_double_space xs \<Longrightarrow> no_double_space ys \<Longrightarrow> xs \<noteq> [] \<Longrightarrow> last xs \<noteq> 32 \<Longrightarrow>
     no_double_space (xs @ ys)"
proof (induction xs rule: no_double_space.induct)
  case 1
  then show ?case by simp
next
  case (2 x)
  then show ?case by (cases ys) auto
next
  case (3 x y ys)
  then show ?case by auto
qed

lemma word_no_double_space: "\<forall>c \<in> set w. \<not> is_space c \<Longrightarrow> no_double_space w"
proof (induction w rule: no_double_space.induct)
  case (3 x y ys)
  then show ?case by auto
qed simp_all

lemma join_words_no_double:
  "\<forall>w \<in> set ws. is_word w \<Longrightarrow> no_double_space (join [32] ws)"
proof (induction "[32::nat]" ws rule: join.induct)
  case 1
  then show ?case by simp
next
  case (2 x)
  then show ?case by (simp add: is_word_def word_no_double_space)
next
  case (3 x y ys)
  have ne: "join [32] (y # ys) \<noteq> []" and h: "\<not> is_space (hd (join [32] (y # ys)))"
    using join_words_ends [of "y # ys"] 3 by auto
  then have "hd (join [32] (y # ys)) \<noteq> 32" by auto
  then have a: "no_double_space (32 # join [32] (y # ys))"
    using 3 ne by (cases "join [32] (y # ys)") auto
  have "\<not> is_space (last x)" using 3 by (simp add: is_word_def)
  then have "last x \<noteq> 32" by auto
  then show ?case
    using 3 a no_double_space_join [of x "32 # join [32] (y # ys)"]
    by (auto simp: is_word_def word_no_double_space)
qed

lemma clean_text_is_normalized: "is_normalized (clean_text s)"
proof -
  have w: "\<forall>w \<in> set (split_ws s). is_word w" using split_ws_words by blast
  show ?thesis
  proof (cases "split_ws s = []")
    case True
    then show ?thesis by (simp add: clean_text_join is_normalized_def)
  next
    case False
    then show ?thesis
      using join_words_ends [OF w] join_words_no_double [OF w] join_words_spaces [OF w]
      by (auto simp: clean_text_join is_normalized_def)
  qed
qed

lemma is_normalized_iff: "is_normalized s \<longleftrightarrow> clean_text s = s"
  using clean_text_normalized clean_text_is_normalized by metis

lemma dedupe_loop_out: "dedupe_loop seen out items = out @ dedupe_loop seen [] items"
proof (induction items arbitrary: seen out)
  case Nil
  then show ?case by simp
next
  case (Cons a items)
  show ?case using Cons [of "insert a seen" "out @ [a]"] Cons [of "insert a seen" "[a]"] Cons [of seen out]
    by simp
qed

lemma dedupe_loop_Cons:
  "dedupe_loop seen [] (x # xs) =
     (if x \<in> seen then dedupe_loop seen [] xs else x # dedupe_loop (insert x seen) [] xs)"
  using dedupe_loop_out [of "insert x seen" "[x]" xs] by simp

lemma set_dedupe_loop: "set (dedupe_loop seen [] xs) = set xs - seen"
  by (induction xs arbitrary: seen) (auto simp: dedupe_loop_Cons simp del: dedupe_loop.simps(2))

lemma distinct_dedupe_loop: "distinct (dedupe_loop seen [] xs)"
  by (induction xs arbitrary: seen) (auto simp: dedupe_loop_Cons set_dedupe_loop simp del: dedupe_loop.simps(2))

lemma dedupe_loop_distinct_id:
  "distinct xs \<Longrightarrow> set xs \<inter> seen = {} \<Longrightarrow> dedupe_loop seen [] xs = xs"
  by (induction xs arbitrary: seen) (auto simp: dedupe_loop_Cons simp del: dedupe_loop.simps(2))

lemma dedupe_loop_order:
  "a \<in> set xs \<Longrightarrow> b \<in> set xs \<Longrightarrow> a \<notin> seen \<Longrightarrow> b \<notin> seen \<Longrightarrow>
   first_index a xs < first_index b xs \<Longrightarrow>
   first_index a (dedupe_loop seen [] xs) < first_index b (dedupe_loop seen [] xs)"
proof (induction xs arbitrary: seen)
  case Nil
  then show ?case by simp
next
  case (Cons x xs)
  show ?case
  proof (cases "x = a \<or> x = b")
    case True
    then show ?thesis using Cons.prems by (auto simp: dedupe_loop_Cons simp del: dedupe_loop.simps(2))
  next
    case False
    then have "first_index a (dedupe_loop (insert x seen) [] xs) < first_index b (dedupe_loop (insert x seen) [] xs)"
      and "first_index a (dedupe_loop seen [] xs) < first_index b (dedupe_loop seen [] xs)"
      using Cons.prems Cons.IH [of "insert x seen"] Cons.IH [of seen] by auto
    then show ?thesis using False by (auto simp: dedupe_loop_Cons simp del: dedupe_loop.simps(2))
  qed
qed

lemma first_index_less: "a \<in> set xs \<Longrightarrow> first_index a xs < length xs"
  by (induction xs) auto

lemma nth_first_index: "a \<in> set xs \<Longrightarrow> xs ! first_index a xs = a"
  by (induction xs) auto

lemma concat_chunks_from: "concat (chunks_from i t) = drop i t"
proof (induction i t rule: chunks_from.induct)
  case (1 i t)
  show ?case
  proof (cases "i < length t")
    case True
    have "take 800 (drop i t) @ drop (i + 800) t = drop i t"
      by (metis append_take_drop_id drop_drop add.commute)
    then show ?thesis using True 1 by (subst chunks_from.simps) simp
  next
    case False
    then show ?thesis by (subst chunks_from.simps) simp
  qed
qed

lemma chunks_from_length:
  "c \<in> set (chunks_from i t) \<Longrightarrow> 0 < length c \<and> length c \<le> 800"
proof (induction i t rule: chunks_from.induct)
  case (1 i t)
  show ?case
  proof (cases "i < length t")
    case True
    then show ?thesis using 1 by (subst (asm) (2) chunks_from.simps) auto
  next
    case False
    then show ?thesis using "1.prems" by (subst (asm) chunks_from.simps) simp
  qed
qed

lemma strip_normalized: "is_normalized x \<Longrightarrow> x \<noteq> [] \<Longrightarrow> strip x = x"
proof -
  assume n: "is_normalized x" and ne: "x \<noteq> []"
  have "hd x \<in> set x" "last x \<in> set x" using ne by simp_all
  then have "\<not> is_space (hd x)" "\<not> is_space (last x)"
    using n ne by (auto simp: is_normalized_def)
  then show ?thesis using ne by (rule_tac strip_id)
qed

lemma normalize_lines_fixed:
  "\<forall>x \<in> set xs. x \<noteq> [] \<and> is_normalized x \<Longrightarrow> normalize_lines xs = xs"
proof -
  assume a: "\<forall>x \<in> set xs. x \<noteq> [] \<and> is_normalized x"
  then have "filter (\<lambda>x. x \<noteq> [] \<and> strip x \<noteq> []) xs = xs"
    by (auto simp: strip_normalized filter_id_conv)
  moreover have "map clean_text xs = xs"
    using a by (simp add: map_idI clean_text_normalized)
  ultimately show ?thesis by (simp add: normalize_lines_def)
qed

lemma dedupe_distinct: "distinct xs \<Longrightarrow> dedupe_keep_order xs = xs"
  by (simp add: dedupe_keep_order_def dedupe_loop_distinct_id)

lemma aggregate_fixed:
  "distinct xs \<Longrightarrow> \<forall>x \<in> set xs. x \<noteq> [] \<and> is_normalized x \<Longrightarrow> aggregate xs = xs"
  by (simp add: aggregate_def normalize_lines_fixed dedupe_distinct)

lemma split_ws_eq_Nil: "split_ws s = [] \<longleftrightarrow> (\<forall>c \<in> set s. is_space c)"
proof (cases "dropWhile is_space s")
  case Nil
  then have a: "\<forall>c \<in> set s. is_space c" by simp
  have "split_ws s = []" by (subst split_ws.simps) (simp only: Nil list.case)
  then show ?thesis using a by blast
next
  case (Cons c cs)
  then have "\<not> (\<forall>c \<in> set s. is_space c)"
    using dropWhile_eq_Nil_conv [of is_space s] by simp
  then show ?thesis using Cons by (subst split_ws.simps) simp
qed

lemma strip_nonempty: "strip s \<noteq> [] \<Longrightarrow> \<exists>c \<in> set s. \<not> is_space c"
proof (rule ccontr)
  assume a: "strip s \<noteq> []" and "\<not> (\<exists>c \<in> set s. \<not> is_space c)"
  then have d: "dropWhile is_space s = []" by simp
  have "strip s = []" unfolding strip_def d by simp
  then show False using a by simp
qed

lemma clean_text_nonempty: "strip s \<noteq> [] \<Longrightarrow> clean_text s \<noteq> []"
proof -
  assume "strip s \<noteq> []"
  then have ne: "split_ws s \<noteq> []" using strip_nonempty [of s] by (simp add: split_ws_eq_Nil)
  have "\<forall>w \<in> set (split_ws s). is_word w" using split_ws_words by blast
  then show ?thesis using join_words_ends [of "split_ws s"] ne by (simp add: clean_text_join)
qed

lemma normalize_lines_props:
  "l \<in> set (normalize_lines xs) \<Longrightarrow> l \<noteq> [] \<and> is_normalized l"
  by (auto simp: normalize_lines_def clean_text_nonempty clean_text_is_normalized)

lemma set_dedupe: "set (dedupe_keep_order xs) = set xs"
  by (simp add: dedupe_keep_order_def set_dedupe_loop)

lemma distinct_dedupe: "distinct (dedupe_keep_order xs)"
  by (simp add: dedupe_keep_order_def distinct_dedupe_loop)

lemma aggregate_props: "l \<in> set (aggregate xs) \<Longrightarrow> l \<noteq> [] \<and> is_normalized l"
  using normalize_lines_props by (simp add: aggregate_def set_dedupe)

lemma aggregate_twice: "aggregate (aggregate xs) = aggregate xs"
  using aggregate_fixed [of "aggregate xs"] aggregate_props [of _ xs]
  by (simp add: aggregate_def distinct_dedupe)

text \<open>
  Claim C5: the aggregation step leaves a list unchanged when its lines are
  already whitespace-normalized, not empty and free of duplicates: normalizing, dropping
  the empty lines and deduplicating again gives the identical list.
\<close>

theorem aggregate_idempotent:
  assumes "distinct xs" and "\<forall>x \<in> set xs. x \<noteq> [] \<and> is_normalized x"
  shows "aggregate xs = xs"
  using assms by (rule aggregate_fixed)

lemma str_simps:
  "str [] = []" "str (c # cs) = of_char c # str cs"
  by (simp_all add: str_def)

theorem aggregate_idempotent_witness:
  "distinct [str ''a b'', str ''c''] \<and> is_normalized (str ''a b'') \<and> is_normalized (str ''c'') \<and>
   aggregate [str ''a b'', str ''c''] = [str ''a b'', str ''c'']"
proof -
  have d: "distinct [str ''a b'', str ''c'']" by (simp add: str_simps)
  have n: "\<forall>x \<in> set [str ''a b'', str ''c'']. x \<noteq> [] \<and> is_normalized x"
    by (simp add: str_simps is_normalized_def is_space_def)
  show ?thesis using d n aggregate_idempotent [OF d n] by simp
qed

lemma dedupe_loop_nth:
  "dedupe_loop seen [] xs =
     map (\<lambda>i. xs ! i) (filter (\<lambda>i. xs ! i \<notin> seen \<and> first_index (xs ! i) xs = i) [0..<length xs])"
proof (induction xs arbitrary: seen)
  case Nil
  then show ?case by simp
next
  case (Cons x xs)
  have upt: "[0..<length (x # xs)] = 0 # map Suc [0..<length xs]"
    by (simp add: upt_conv_Cons map_Suc_upt del: upt_Suc)
  show ?case
  proof (cases "x \<in> seen")
    case True
    have "filter (\<lambda>i. (x # xs) ! i \<notin> seen \<and> first_index ((x # xs) ! i) (x # xs) = i) (map Suc [0..<length xs])
        = map Suc (filter (\<lambda>i. xs ! i \<notin> seen \<and> first_index (xs ! i) xs = i) [0..<length xs])"
      using True by (auto simp: filter_map comp_def intro!: arg_cong [where f = "map Suc"] filter_cong)
    then show ?thesis
      using True Cons [of seen] unfolding upt
      by (simp add: dedupe_loop_Cons comp_def del: dedupe_loop.simps(2) upt_Suc)
  next
    case False
    have "filter (\<lambda>i. (x # xs) ! i \<notin> seen \<and> first_index ((x # xs) ! i) (x # xs) = i) (map Suc [0..<length xs])
        = map Suc (filter (\<lambda>i. xs ! i \<notin> insert x seen \<and> first_index (xs ! i) xs = i) [0..<length xs])"
      by (auto simp: filter_map comp_def intro!: arg_cong [where f = "map Suc"] filter_cong)
    then show ?thesis
      using False Cons [of "insert x seen"] unfolding upt
      by (simp add: dedupe_loop_Cons comp_def del: dedupe_loop.simps(2) upt_Suc)
  qed
qed

text \<open>
  Claim C6: deduplication keeps first-occurrence order. The output has no
  duplicates and the same elements as the input; it consists of exactly the elements at
  the positions that are first occurrences, in their order; and of two lines of the input,
  the one whose first occurrence comes first also comes first in the output.
\<close>

theorem dedupe_first_occurrence_order:
  "distinct (dedupe_keep_order xs) \<and> set (dedupe_keep_order xs) = set xs \<and>
   dedupe_keep_order xs =
     map (\<lambda>i. xs ! i) (filter (\<lambda>i. first_index (xs ! i) xs = i) [0..<length xs]) \<and>
   (\<forall>a \<in> set xs. \<forall>b \<in> set xs. first_index a xs < first_index b xs \<longrightarrow>
      first_index a (dedupe_keep_order xs) < first_index b (dedupe_keep_order xs))"
proof -
  have "dedupe_keep_order xs =
     map (\<lambda>i. xs ! i) (filter (\<lambda>i. first_index (xs ! i) xs = i) [0..<length xs])"
    using dedupe_loop_nth [of "{}" xs] by (simp add: dedupe_keep_order_def)
  moreover have "\<forall>a \<in> set xs. \<forall>b \<in> set xs. first_index a xs < first_index b xs \<longrightarrow>
      first_index a (dedupe_keep_order xs) < first_index b (dedupe_keep_order xs)"
    using dedupe_loop_order [of _ xs _ "{}"] by (simp add: dedupe_keep_order_def)
  ultimately show ?thesis using distinct_dedupe [of xs] set_dedupe [of xs] by blast
qed

lemma is_linebreak_space: "is_linebreak c \<Longrightarrow> is_space c"
  by (auto simp: is_linebreak_def is_space_def)

lemma normalized_no_linebreak: "is_normalized l \<Longrightarrow> c \<in> set l \<Longrightarrow> \<not> is_linebreak c"
proof
  assume n: "is_normalized l" and c: "c \<in> set l" and b: "is_linebreak c"
  then have "c = 32" using is_linebreak_space by (auto simp: is_normalized_def)
  then show False using b by (simp add: is_linebreak_def)
qed

lemma splitlines_from_append:
  "\<forall>c \<in> set l. \<not> is_linebreak c \<Longrightarrow> splitlines_from cur (l @ rest) = splitlines_from (cur @ l) rest"
  by (induction l arbitrary: cur) auto

lemma splitlines_from_newline: "splitlines_from cur (10 # rest) = cur # splitlines_from [] rest"
  by (cases rest) (auto simp: is_linebreak_def)

lemma splitlines_join:
  "\<forall>l \<in> set ls. l \<noteq> [] \<and> (\<forall>c \<in> set l. \<not> is_linebreak c) \<Longrightarrow>
     splitlines_from [] (join [10] ls) = ls"
proof (induction "[10::nat]" ls rule: join.induct)
  case 1
  then show ?case by simp
next
  case (2 x)
  then show ?case using splitlines_from_append [of x "[]" "[]"] by simp
next
  case (3 x y ys)
  have "splitlines_from [] (x @ 10 # join [10] (y # ys)) =
        splitlines_from x (10 # join [10] (y # ys))"
    using 3 splitlines_from_append [of x "[]" "10 # join [10] (y # ys)"] by simp
  also have "\<dots> = x # splitlines_from [] (join [10] (y # ys))"
    by (rule splitlines_from_newline)
  also have "\<dots> = x # y # ys" using 3 by simp
  finally show ?case by simp
qed

lemma main_output_aggregate: "fst (main w) = Inr ls \<Longrightarrow> \<exists>xs. ls = aggregate xs"
  by (auto simp: main_def Let_def write_text_def split: sum.splits json.splits prod.splits if_splits)

text \<open>
  Claim C9: a line written to the output file holds no newline character:
  its only whitespace is the space character, and splitting the newline-joined content
  of the file into physical lines gives back exactly the lines written.
\<close>

theorem output_lines_single_physical_line:
  assumes "fst (main w) = Inr ls"
  shows "(\<forall>l \<in> set ls. 10 \<notin> set l \<and> (\<forall>c \<in> set l. is_space c \<longrightarrow> c = 32)) \<and>
         splitlines (file_content ls) = ls"
proof -
  from assms obtain xs where ls: "ls = aggregate xs" using main_output_aggregate by blast
  have p: "\<forall>l \<in> set ls. l \<noteq> [] \<and> is_normalized l" using aggregate_props ls by blast
  then have sp: "\<forall>l \<in> set ls. \<forall>c \<in> set l. is_space c \<longrightarrow> c = 32"
    by (auto simp: is_normalized_def)
  then have "\<forall>l \<in> set ls. 10 \<notin> set l" by fastforce
  moreover have "\<forall>l \<in> set ls. l \<noteq> [] \<and> (\<forall>c \<in> set l. \<not> is_linebreak c)"
    using p normalized_no_linebreak by blast
  then have "splitlines (file_content ls) = ls"
    using splitlines_join [of ls] by (simp add: splitlines_def file_content_def)
  ultimately show ?thesis using sp by blast
qed

text \<open>
  Claim C10: resolving the placeholders changes string leaves only: the
  value keeps its structure, that is the keys of every dict and their order, the length
  and order of every list, and every leaf that is not a string.
\<close>

theorem resolve_preserves_shape: "shape (resolve_env_placeholders env v) = shape v"
  by (induction v) (auto simp: case_prod_beta)

lemma clean_text_Nil [simp]: "clean_text [] = []"
  by (simp add: clean_text_def)

lemma priority_loop_eq:
  "priority_loop kvs cands keys =
     cands @ concat (map (\<lambda>k. case map_of kvs k of
                         Some (JStr v) \<Rightarrow> if strip v \<noteq> [] then [strip v] else []
                       | _ \<Rightarrow> []) keys)"
  by (induction keys arbitrary: cands)
     (auto simp: dget_def dget_default_def split: option.splits json.splits)

lemma fallback_loop_eq: "fallback_loop cands kvs = cands @ long_string_values kvs"
  by (induction kvs arbitrary: cands)
     (auto simp: long_string_values_def split: json.splits)

lemma extract_eq:
  "extract_apify_text_fields (JDict kvs) =
     Inr (clean_text (join (str '' '')
       (if nonblank_priority_values kvs \<noteq> [] then nonblank_priority_values kvs
        else long_string_values kvs)))"
proof -
  have p: "priority_loop kvs [] priority_keys = nonblank_priority_values kvs"
    by (simp add: priority_loop_eq nonblank_priority_values_def)
  show ?thesis
  proof (cases "nonblank_priority_values kvs = []")
    case True
    then show ?thesis
      using p by (simp add: extract_apify_text_fields_def Let_def fallback_loop_eq)
  next
    case False
    then show ?thesis
      using p by (simp add: extract_apify_text_fields_def Let_def)
  qed
qed

lemma chunks_Nil [simp]: "chunks [] = []"
  by (simp add: chunks_def chunks_from.simps)

text \<open>
  Claim C7: (as amended) text extraction of a record collects the stripped
  values of the priority fields caption, text, summary, title, description, alt, content,
  in that order, that are strings with a character other than whitespace; when there is
  none, it collects every string value longer than 20 characters in the record's order;
  the collected strings are joined by one space and whitespace-normalized; and a record
  whose text is empty gives no output line.
\<close>

theorem extract_text_nonblank_priority:
  "extract_apify_text_fields (JDict kvs) =
     Inr (clean_text (join (str '' '')
       (if nonblank_priority_values kvs \<noteq> [] then nonblank_priority_values kvs
        else long_string_values kvs))) \<and>
   (extract_apify_text_fields (JDict kvs) = Inr [] \<longrightarrow> item_lines w actor (JDict kvs) = Inr [])"
  using extract_eq [of kvs] by (simp add: item_lines_def)

lemma item_src_eq: "item_src actor kvs = first_truthy_src actor kvs"
  by (simp add: item_src_def first_truthy_src_def src_keys_def py_or_def)

text \<open>
  Claim C8: (as amended) the source identifier of a record is the first value
  that is true (in Python's sense) among those of the keys url, link, permalink, and the
  actor identifier when there is none; every line of the record starts with the prefix made
  of it; and where each of the three keys that is present has a true value, this is the
  value of the first key present.
\<close>

theorem item_src_first_truthy:
  "item_src actor kvs = first_truthy_src actor kvs \<and>
   item_lines w actor (JDict kvs) =
     Inr (map (\<lambda>chunk. apify_prefix w (first_truthy_src actor kvs) @ chunk)
            (chunks (clean_text (join (str '' '')
               (if nonblank_priority_values kvs \<noteq> [] then nonblank_priority_values kvs
                else long_string_values kvs))))) \<and>
   ((\<forall>k \<in> set src_keys. \<forall>v. map_of kvs k = Some v \<longrightarrow> truthy v) \<longrightarrow>
      first_truthy_src actor kvs = spec_item_src actor kvs)"
proof -
  have "(\<forall>k \<in> set src_keys. \<forall>v. map_of kvs k = Some v \<longrightarrow> truthy v) \<longrightarrow>
      first_truthy_src actor kvs = spec_item_src actor kvs"
    by (auto simp: first_truthy_src_def spec_item_src_def src_keys_def dget_def dget_default_def
        split: option.splits)
  then show ?thesis
    using extract_eq [of kvs] item_src_eq [of actor kvs] by (simp add: item_lines_def)
qed

lemma split_ws_Cons:
  "split_ws (c # s) =
     (if is_space c then split_ws s
      else takeWhile (\<lambda>x. \<not> is_space x) (c # s) #
           split_ws (dropWhile (\<lambda>x. \<not> is_space x) (c # s)))"
proof (cases "is_space c")
  case True
  then show ?thesis by (simp add: split_ws_space)
next
  case False
  then show ?thesis by (subst split_ws.simps) simp
qed

lemmas string_eval =
  str_simps split_ws_Cons is_space_def strip_def clean_text_def

text \<open>
  Claim C7: as stated, with "non-empty" for the test on a priority field,
  fails on a record whose title is a single space and that has another long string: the
  code falls back to the long string, while the stated rule collects the title and gives
  no text.
\<close>

theorem extract_text_counterexample:
  "extract_apify_text_fields
     (JDict [(str ''title'', JStr (str '' '')),
             (str ''note'', JStr (str ''a note of more than twenty characters''))]) \<noteq>
   Inr (spec_extract_text
     [(str ''title'', JStr (str '' '')),
      (str ''note'', JStr (str ''a note of more than twenty characters''))])"
  by (simp add: string_eval extract_apify_text_fields_def spec_extract_text_def
      spec_priority_values_def long_string_values_def priority_keys_def dget_def
      dget_default_def Let_def)

text \<open>
  Claim C8: as stated fails on a record whose url is the empty string and
  whose link is set: the code labels the lines with the link, not with the value of the
  first key present.
\<close>

theorem item_src_counterexample:
  "item_src (JStr (str ''x/y''))
     [(str ''url'', JStr []), (str ''link'', JStr (str ''http://s.test''))] \<noteq>
   spec_item_src (JStr (str ''x/y''))
     [(str ''url'', JStr []), (str ''link'', JStr (str ''http://s.test''))]"
  by (simp add: str_simps item_src_def spec_item_src_def src_keys_def dget_def
      dget_default_def py_or_def)

theorem dedupe_first_occurrence_order_witness:
  "(2::nat) \<in> set [2, 1, 2 :: nat] \<and> (1::nat) \<in> set [2, 1, 2 :: nat] \<and>
   first_index (2::nat) [2, 1, 2 :: nat] < first_index (1::nat) [2, 1, 2 :: nat] \<and>
   first_index (2::nat) (dedupe_keep_order [2, 1, 2 :: nat]) <
     first_index (1::nat) (dedupe_keep_order [2, 1, 2 :: nat])"
  using dedupe_first_occurrence_order [of "[2, 1, 2 :: nat]"] by simp

theorem extract_text_nonblank_priority_witness:
  "extract_apify_text_fields (JDict [(str ''id'', JInt 7)]) = Inr [] \<and>
   item_lines bare_world (JStr (str ''x/y'')) (JDict [(str ''id'', JInt 7)]) = Inr []"
proof -
  have "extract_apify_text_fields (JDict [(str ''id'', JInt 7)]) = Inr []"
    by (simp add: extract_apify_text_fields_def priority_keys_def dget_def dget_default_def
        str_simps Let_def)
  then show ?thesis
    using extract_text_nonblank_priority
      [where kvs = "[(str ''id'', JInt 7)]" and w = bare_world and actor = "JStr (str ''x/y'')"]
    by simp
qed

theorem item_src_first_truthy_witness:
  "truthy (JStr (str ''http://s.test'')) \<and>
   item_src (JStr (str ''x/y'')) [(str ''link'', JStr (str ''http://s.test''))] =
     spec_item_src (JStr (str ''x/y'')) [(str ''link'', JStr (str ''http://s.test''))]"
proof -
  have h: "\<forall>k \<in> set src_keys. \<forall>v. map_of [(str ''link'', JStr (str ''http://s.test''))] k = Some v \<longrightarrow> truthy v"
    by (simp add: src_keys_def str_simps)
  show ?thesis
    using h item_src_first_truthy
      [where kvs = "[(str ''link'', JStr (str ''http://s.test''))]" and w = bare_world
         and actor = "JStr (str ''x/y'')"]
    by (simp add: str_simps)
qed

lemma retry_adds:
  assumes "\<And>tr. \<exists>new. snd (f tr) = tr @ new \<and> list_all P new"
  shows "\<exists>new. snd (retry n f tr) = tr @ new \<and> list_all P new"
proof (induction n arbitrary: tr)
  case 0
  then show ?case by simp
next
  case (Suc n)
  obtain res tr1 where f: "f tr = (res, tr1)" by (cases "f tr")
  from assms [of tr] f obtain new1 where n1: "tr1 = tr @ new1" "list_all P new1" by auto
  show ?case
  proof (cases res)
    case (Inl e)
    from Suc [of tr1] obtain new2 where "snd (retry n f tr1) = tr1 @ new2" "list_all P new2"
      by blast
    then have "snd (retry (Suc n) f tr) = tr @ (new1 @ new2) \<and> list_all P (new1 @ new2)"
      using f Inl n1 by simp
    then show ?thesis by blast
  next
    case (Inr v)
    then show ?thesis using f n1 by auto
  qed
qed

lemma simple_fetch_adds:
  assumes "P (GET url)"
  shows "\<exists>new. snd (simple_fetch w url tr) = tr @ new \<and> list_all P new"
  unfolding simple_fetch_def
proof (rule retry_adds)
  fix tr0
  have "snd (simple_fetch_once w url tr0) = tr0 @ [GET url]"
    by (simp add: simple_fetch_once_def http_call_def split: sum.splits)
  then show "\<exists>new. snd (simple_fetch_once w url tr0) = tr0 @ new \<and> list_all P new"
    using assms by simp
qed

lemma firecrawl_scrape_adds:
  assumes "firecrawl_enabled w \<longrightarrow> P (POST_scrape url) \<and> P (POST_crawl url)"
  shows "\<exists>new. snd (firecrawl_scrape w url tr) = tr @ new \<and> list_all P new"
  unfolding firecrawl_scrape_def
proof (rule retry_adds)
  fix tr0
  show "\<exists>new. snd (firecrawl_scrape_once w url tr0) = tr0 @ new \<and> list_all P new"
  proof (cases "firecrawl_enabled w")
    case False
    then show ?thesis by (simp add: firecrawl_scrape_once_def)
  next
    case True
    then have "snd (firecrawl_scrape_once w url tr0) = tr0 @ [] \<or>
               snd (firecrawl_scrape_once w url tr0) = tr0 @ [POST_scrape url] \<or>
               snd (firecrawl_scrape_once w url tr0) = tr0 @ [POST_scrape url, POST_crawl url]"
      by (simp add: firecrawl_scrape_once_def http_call_def split: option.splits)
    moreover have "list_all P []" "list_all P [POST_scrape url]"
      "list_all P [POST_scrape url, POST_crawl url]"
      using assms True by simp_all
    ultimately show ?thesis by blast
  qed
qed

lemma web_text_adds:
  assumes "P (GET url)" and "firecrawl_enabled w \<longrightarrow> P (POST_scrape url) \<and> P (POST_crawl url)"
  shows "\<exists>new. snd (web_text w url tr) = tr @ new \<and> list_all P new"
proof -
  obtain res tr1 where f: "firecrawl_scrape w url tr = (res, tr1)"
    by (cases "firecrawl_scrape w url tr")
  from firecrawl_scrape_adds [of w P url tr, OF assms(2)] f
  obtain new1 where n1: "tr1 = tr @ new1" "list_all P new1" by auto
  from simple_fetch_adds [of P url w tr1, OF assms(1)]
  obtain new2 where n2: "snd (simple_fetch w url tr1) = tr1 @ new2" "list_all P new2" by blast
  have "snd (web_text w url tr) = tr1 \<or> snd (web_text w url tr) = snd (simple_fetch w url tr1)"
    using f by (auto simp: web_text_def Let_def split: prod.splits sum.splits)
  then show ?thesis
  proof
    assume "snd (web_text w url tr) = tr1"
    then show ?thesis using n1 by blast
  next
    assume "snd (web_text w url tr) = snd (simple_fetch w url tr1)"
    then have "snd (web_text w url tr) = tr @ (new1 @ new2) \<and> list_all P (new1 @ new2)"
      using n1 n2 by simp
    then show ?thesis by blast
  qed
qed

lemma web_loop_adds:
  assumes "\<And>url. P (GET url)"
    and "firecrawl_enabled w \<longrightarrow> (\<forall>url. P (POST_scrape url) \<and> P (POST_crawl url))"
  shows "\<exists>new. snd (web_loop w lines urls tr) = tr @ new \<and> list_all P new"
proof (induction urls arbitrary: lines tr)
  case Nil
  then show ?case by simp
next
  case (Cons url urls)
  obtain got tr1 where t: "web_text w url tr = (got, tr1)" by (cases "web_text w url tr")
  have "\<exists>new. snd (web_text w url tr) = tr @ new \<and> list_all P new"
    using assms by (intro web_text_adds) auto
  then obtain new1 where n1: "tr1 = tr @ new1" "list_all P new1" using t by auto
  from Cons [of "lines @ web_lines w url got" tr1]
  obtain new2 where n2: "snd (web_loop w (lines @ web_lines w url got) urls tr1) = tr1 @ new2"
    "list_all P new2" by blast
  have "snd (web_loop w lines (url # urls) tr) = tr @ (new1 @ new2) \<and> list_all P (new1 @ new2)"
    using t n1 n2 by simp
  then show ?case by blast
qed

lemma apify_run_sync_adds:
  assumes "apify_enabled w \<longrightarrow> P (POST_actor actor actor_input)"
  shows "\<exists>new. snd (apify_run_sync w actor actor_input tr) = tr @ new \<and> list_all P new"
  unfolding apify_run_sync_def
proof (rule retry_adds)
  fix tr0
  show "\<exists>new. snd (apify_run_sync_once w actor actor_input tr0) = tr0 @ new \<and> list_all P new"
  proof (cases "apify_enabled w")
    case False
    then show ?thesis by (simp add: apify_run_sync_once_def)
  next
    case True
    then have "snd (apify_run_sync_once w actor actor_input tr0) = tr0 @ [POST_actor actor actor_input]"
      by (simp add: apify_run_sync_once_def http_call_def split: sum.splits json.splits)
    then show ?thesis using assms True by simp
  qed
qed

lemma apify_loop_adds:
  assumes "apify_enabled w \<longrightarrow> (\<forall>a i. P (POST_actor a i))"
  shows "\<exists>new. snd (apify_loop w lines cfgs tr) = tr @ new \<and> list_all P new"
proof (induction cfgs arbitrary: lines tr)
  case Nil
  then show ?case by simp
next
  case (Cons cfg cfgs)
  show ?case
  proof (cases cfg)
    case (JDict kvs)
    define actor where "actor = dget kvs (str ''actor'')"
    define actor_input where
      "actor_input = resolve_env_placeholders (getenv w) (dget_default kvs (str ''input'') (JDict []))"
    show ?thesis
    proof (cases "truthy actor")
      case False
      then show ?thesis using Cons [of lines tr] JDict by (simp add: actor_def)
    next
      case True
      obtain res tr1 where r: "apify_run_sync w actor actor_input tr = (res, tr1)"
        by (cases "apify_run_sync w actor actor_input tr")
      have "\<exists>new. snd (apify_run_sync w actor actor_input tr) = tr @ new \<and> list_all P new"
        using assms by (intro apify_run_sync_adds) auto
      then obtain new1 where n1: "tr1 = tr @ new1" "list_all P new1" using r by auto
      define lines1 where
        "lines1 = (case res of Inl e \<Rightarrow> lines | Inr items \<Rightarrow> items_loop w actor lines items)"
      from Cons [of lines1 tr1]
      obtain new2 where n2: "snd (apify_loop w lines1 cfgs tr1) = tr1 @ new2" "list_all P new2"
        by blast
      have "apify_loop w lines (cfg # cfgs) tr = apify_loop w lines1 cfgs tr1"
        using True r JDict by (cases res) (simp_all add: actor_def actor_input_def lines1_def)
      then have "snd (apify_loop w lines (cfg # cfgs) tr) = tr @ (new1 @ new2) \<and>
                 list_all P (new1 @ new2)"
        using n1 n2 by simp
      then show ?thesis by blast
    qed
  qed simp_all
qed

lemma build_lines_from_web_adds:
  assumes "\<And>url. P (GET url)"
    and "firecrawl_enabled w \<longrightarrow> (\<forall>url. P (POST_scrape url) \<and> P (POST_crawl url))"
  shows "\<exists>new. snd (build_lines_from_web w v tr) = tr @ new \<and> list_all P new"
proof (cases "py_iter v")
  case (Inl e)
  then show ?thesis by (simp add: build_lines_from_web_def)
next
  case (Inr us)
  from web_loop_adds [of P w "[]" us tr, OF assms]
  obtain new where "snd (web_loop w [] us tr) = tr @ new" "list_all P new" by blast
  then have "snd (build_lines_from_web w v tr) = tr @ new \<and> list_all P new"
    using Inr by (cases "web_loop w [] us tr") (simp add: build_lines_from_web_def)
  then show ?thesis by blast
qed

lemma web_stage_adds:
  assumes "\<And>url. P (GET url)"
    and "firecrawl_enabled w \<longrightarrow> (\<forall>url. P (POST_scrape url) \<and> P (POST_crawl url))"
  shows "list_all P (snd (web_stage w v))"
  using build_lines_from_web_adds [of P w v "[]", OF assms]
  by (auto simp: web_stage_def)

lemma apify_stage_adds:
  assumes "apify_enabled w \<longrightarrow> (\<forall>a i. P (POST_actor a i))"
  shows "\<exists>new. snd (apify_stage w v tr) = tr @ new \<and> list_all P new"
proof (cases "truthy v \<and> apify_enabled w")
  case False
  then show ?thesis by (auto simp: apify_stage_def)
next
  case True
  show ?thesis
  proof (cases "py_iter v")
    case (Inl e)
    then show ?thesis using True by (simp add: apify_stage_def build_lines_from_apify_def)
  next
    case (Inr cfgs)
    then show ?thesis
      using True apify_loop_adds [of w P "[]" cfgs tr, OF assms]
      by (simp add: apify_stage_def build_lines_from_apify_def)
  qed
qed

lemma main_trace:
  assumes "\<And>url. P (GET url)"
    and "firecrawl_enabled w \<longrightarrow> (\<forall>url. P (POST_scrape url) \<and> P (POST_crawl url))"
    and "apify_enabled w \<longrightarrow> (\<forall>a i. P (POST_actor a i))"
  shows "list_all P (snd (main w))"
proof (cases "read_sources w")
  case (Inl e)
  then show ?thesis by (simp add: main_def)
next
  case (Inr cfg)
  show ?thesis
  proof (cases cfg)
    case (JDict kvs)
    define web_urls where "web_urls = dget_default kvs (str ''web'') (JList [])"
    define apify_cfg where "apify_cfg = dget_default kvs (str ''apify'') (JList [])"
    obtain r1 tr1 where w1: "web_stage w web_urls = (r1, tr1)" by (cases "web_stage w web_urls")
    have p1: "list_all P tr1"
      using web_stage_adds [of P w web_urls, OF assms(1,2)] w1 by simp
    obtain r2 tr2 where w2: "apify_stage w apify_cfg tr1 = (r2, tr2)"
      by (cases "apify_stage w apify_cfg tr1")
    from apify_stage_adds [of w P apify_cfg tr1, OF assms(3)] w2
    have p2: "list_all P tr2" using p1 by auto
    have "snd (main w) = tr1 \<or> snd (main w) = tr2"
      using Inr JDict w1 w2
      by (auto simp: main_def Let_def web_urls_def apify_cfg_def split: sum.splits)
    then show ?thesis using p1 p2 by auto
  qed (simp_all add: main_def Inr)
qed

lemma retry_3:
  "retry 3 f tr =
     (case f tr of (Inr v, tr1) \<Rightarrow> (Inr v, tr1)
      | (Inl e, tr1) \<Rightarrow>
          (case f tr1 of (Inr v, tr2) \<Rightarrow> (Inr v, tr2)
           | (Inl e, tr2) \<Rightarrow>
               (case f tr2 of (Inr v, tr3) \<Rightarrow> (Inr v, tr3)
                | (Inl e, tr3) \<Rightarrow> (Inl RetryError, tr3))))"
  by (simp add: numeral_3_eq_3 split: prod.splits sum.splits)

lemma firecrawl_scrape_disabled:
  "FIRECRAWL_API_KEY w = [] \<Longrightarrow> firecrawl_scrape w url tr = (Inr None, tr)"
  by (simp add: firecrawl_scrape_def retry_3 firecrawl_scrape_once_def firecrawl_enabled_def)

lemma web_text_disabled:
  "FIRECRAWL_API_KEY w = [] \<Longrightarrow>
   web_text w url tr =
     (case simple_fetch w url tr of
        (Inr html, tr') \<Rightarrow> (Some (extract_text_from_html w html), tr')
      | (Inl e, tr') \<Rightarrow> (None, tr'))"
  by (simp add: web_text_def firecrawl_scrape_disabled has_text_def)

text \<open>
  Claim C3: without the scraping-service credential, \<open>firecrawl_scrape\<close>
  returns nothing and makes no request, the text of a web source is what the direct fetch
  and the HTML extraction give, and no request of the whole run goes to the scrape or
  crawl endpoints.
\<close>

theorem no_firecrawl_key_direct_fetch:
  assumes "FIRECRAWL_API_KEY w = []"
  shows "firecrawl_scrape w url tr = (Inr None, tr) \<and>
         web_text w url tr =
           (case simple_fetch w url tr of
              (Inr html, tr') \<Rightarrow> (Some (extract_text_from_html w html), tr')
            | (Inl e, tr') \<Rightarrow> (None, tr')) \<and>
         (\<forall>r \<in> set (snd (main w)). \<not> is_firecrawl_request r)"
proof -
  have "\<not> firecrawl_enabled w" using assms by (simp add: firecrawl_enabled_def)
  then have "list_all (\<lambda>r. \<not> is_firecrawl_request r) (snd (main w))"
    by (intro main_trace) simp_all
  then show ?thesis
    using firecrawl_scrape_disabled [OF assms] web_text_disabled [OF assms]
    by (simp add: list_all_iff)
qed

text \<open>
  Claim C2: on a configuration file that the YAML parser rejects, the
  exception leaves \<open>read_sources\<close> and ends the run; no empty configuration is produced.
\<close>

theorem unparseable_config_fails:
  "read_sources (bare_world\<lparr>sources_file := Some (str ''web: ['')\<rparr>) = Inl YAMLError \<and>
   main (bare_world\<lparr>sources_file := Some (str ''web: ['')\<rparr>) = (Inl YAMLError, [])"
  by (simp add: read_sources_def main_def bare_world_def)

lemma absent_config_empty:
  "sources_file w = None \<Longrightarrow> read_sources w = Inr empty_config \<and> main w = (Inr [], [])"
  by (simp add: read_sources_def main_def empty_config_def dget_default_def str_simps
      web_stage_def apify_stage_def aggregate_def normalize_lines_def dedupe_keep_order_def
      write_text_def file_content_def utf8_encodable_def)

lemma page_world_fields:
  "getenv (page_world p) = (\<lambda>name. None)"
  "sources_file (page_world p) = Some (str ''web: [u]'')"
  "yaml_safe_load (page_world p) = (\<lambda>s. Inr one_url_config)"
  "http (page_world p) = (\<lambda>tr req. Inr \<lparr> status_code = 200, body = str ''<p>'' \<rparr>)"
  "soup_get_text (page_world p) = (\<lambda>html. p)"
  by (simp_all add: page_world_def bare_world_def)

lemma page_world_keys:
  "FIRECRAWL_API_KEY (page_world p) = []" "APIFY_TOKEN (page_world p) = []"
  by (simp_all add: FIRECRAWL_API_KEY_def APIFY_TOKEN_def getenv_or_def page_world_fields)

lemma page_world_web_text:
  "web_text (page_world p) url [] = (Some (clean_text p), [GET url])"
  by (simp add: web_text_disabled page_world_keys simple_fetch_def retry_3 simple_fetch_once_def
      http_call_def page_world_fields is_success_def extract_text_from_html_def)

lemma page_world_sources:
  "read_sources (page_world p) =
     Inr (JDict [(str ''web'', JList [JStr (str ''u'')]), (str ''apify'', JList [])])"
  by (simp add: read_sources_def page_world_fields one_url_config_def py_or_def setdefault_def
      str_simps)

lemma page_world_web_stage:
  "web_stage (page_world p) (JList [JStr (str ''u'')]) =
     (Inr (web_lines (page_world p) (JStr (str ''u'')) (Some (clean_text p))),
      [GET (JStr (str ''u''))])"
  by (simp add: web_stage_def build_lines_from_web_def py_iter_def page_world_web_text)

lemma page_world_main:
  "main (page_world p) =
     (write_text (aggregate (web_lines (page_world p) (JStr (str ''u'')) (Some (clean_text p)))),
      [GET (JStr (str ''u''))])"
proof -
  have web: "dget_default [(str ''web'', JList [JStr (str ''u'')]), (str ''apify'', JList [])]
      (str ''web'') (JList []) = JList [JStr (str ''u'')]"
    by (simp add: dget_default_def)
  have ap: "dget_default [(str ''web'', JList [JStr (str ''u'')]), (str ''apify'', JList [])]
      (str ''apify'') (JList []) = JList []"
    by (simp add: dget_default_def str_simps)
  show ?thesis
    unfolding main_def page_world_sources
    by (simp add: web ap page_world_web_stage apify_stage_def Let_def)
qed

lemma chunks_short: "t \<noteq> [] \<Longrightarrow> length t \<le> 800 \<Longrightarrow> chunks t = [t]"
  unfolding chunks_def
  by (subst chunks_from.simps, subst chunks_from.simps) simp

lemma web_lines_Some:
  "web_lines w url (Some t) = map (\<lambda>chunk. web_prefix w url @ chunk) (chunks (clean_text t))"
  by (simp add: web_lines_def)

lemma dedupe_single: "dedupe_keep_order [x] = [x]"
  by (simp add: dedupe_keep_order_def)

lemma hello_clean: "clean_text (str ''Hello   World'') = str ''Hello World''"
  by (simp add: string_eval)

lemma hello_main:
  "main (page_world (str ''Hello   World'')) =
     (Inr [str ''SRC:WEB u | Hello World''], [GET (JStr (str ''u''))])"
proof -
  have c: "clean_text (str ''Hello World'') = str ''Hello World''"
    by (simp add: string_eval)
  have k: "chunks (str ''Hello World'') = [str ''Hello World'']"
    by (rule chunks_short) (simp_all add: str_simps)
  have p: "web_prefix (page_world (str ''Hello   World'')) (JStr (str ''u'')) @ str ''Hello World'' =
      str ''SRC:WEB u | Hello World''"
    by (simp add: web_prefix_def fmt_def str_simps)
  have a: "aggregate [str ''SRC:WEB u | Hello World''] = [str ''SRC:WEB u | Hello World'']"
    by (simp add: aggregate_def normalize_lines_def dedupe_single string_eval)
  have e: "write_text [str ''SRC:WEB u | Hello World''] = Inr [str ''SRC:WEB u | Hello World'']"
    by (simp add: write_text_def file_content_def utf8_encodable_def str_simps)
  show ?thesis
    by (simp add: page_world_main hello_clean web_lines_Some c k p a e)
qed

theorem output_lines_single_physical_line_witness:
  "fst (main (page_world (str ''Hello   World''))) = Inr [str ''SRC:WEB u | Hello World''] \<and>
   10 \<notin> set (str ''SRC:WEB u | Hello World'') \<and>
   splitlines (file_content [str ''SRC:WEB u | Hello World'']) = [str ''SRC:WEB u | Hello World'']"
proof -
  have h: "fst (main (page_world (str ''Hello   World''))) = Inr [str ''SRC:WEB u | Hello World'']"
    by (simp add: hello_main)
  show ?thesis using h output_lines_single_physical_line [OF h] by simp
qed

theorem no_firecrawl_key_direct_fetch_witness:
  "FIRECRAWL_API_KEY (page_world (str ''Hello   World'')) = [] \<and>
   firecrawl_scrape (page_world (str ''Hello   World'')) (JStr (str ''u'')) [] = (Inr None, []) \<and>
   snd (main (page_world (str ''Hello   World''))) = [GET (JStr (str ''u''))] \<and>
   \<not> is_firecrawl_request (GET (JStr (str ''u'')))"
proof -
  have h: "FIRECRAWL_API_KEY (page_world (str ''Hello   World'')) = []"
    by (simp add: page_world_keys)
  show ?thesis
    using h no_firecrawl_key_direct_fetch [OF h, of "JStr (str ''u'')" "[]"]
    by (simp add: hello_main)
qed

lemma web_lines_form:
  "l \<in> set (web_lines w url t) \<Longrightarrow> \<exists>r. l = str ''SRC:WEB '' @ r \<and> 124 \<in> set r"
  by (auto simp: web_lines_def web_prefix_def str_simps split: option.splits if_splits)

lemma web_loop_lines:
  "l \<in> set (fst (web_loop w lines urls tr)) \<Longrightarrow>
     l \<in> set lines \<or> (\<exists>r. l = str ''SRC:WEB '' @ r \<and> 124 \<in> set r)"
proof (induction urls arbitrary: lines tr)
  case Nil
  then show ?case by simp
next
  case (Cons url urls)
  obtain got tr1 where t: "web_text w url tr = (got, tr1)" by (cases "web_text w url tr")
  from Cons.prems t have "l \<in> set (fst (web_loop w (lines @ web_lines w url got) urls tr1))"
    by simp
  from Cons.IH [OF this] show ?case using web_lines_form [of l w url got] by auto
qed

lemma web_stage_lines:
  assumes "web_stage w v = (Inr web, tr)" and "l \<in> set web"
  shows "\<exists>r. l = str ''SRC:WEB '' @ r \<and> 124 \<in> set r"
proof (cases "truthy v")
  case False
  then show ?thesis using assms by (simp add: web_stage_def)
next
  case True
  then obtain us where "py_iter v = Inr us" and "web = fst (web_loop w [] us [])"
    using assms(1)
    by (auto simp: web_stage_def build_lines_from_web_def split: sum.splits prod.splits)
  then show ?thesis using web_loop_lines [of l w "[]" us "[]"] assms(2) by simp
qed

lemma web_stage_completes:
  assumes "\<not> truthy v \<or> py_iter v = Inr us"
  shows "\<exists>web tr. web_stage w v = (Inr web, tr)"
proof (cases "truthy v")
  case False
  then show ?thesis by (simp add: web_stage_def)
next
  case True
  then have "py_iter v = Inr us" using assms by simp
  then show ?thesis
    using True by (cases "web_loop w [] us []") (simp add: web_stage_def build_lines_from_web_def)
qed

lemma clean_text_web_label:
  assumes "124 \<in> set r"
  shows "take 8 (clean_text (str ''SRC:WEB '' @ r)) = str ''SRC:WEB ''"
proof -
  have w: "is_word (str ''SRC:WEB'')" by (simp add: is_word_def str_simps is_space_def)
  have e: "str ''SRC:WEB '' @ r = str ''SRC:WEB'' @ (32 # r)" by (simp add: str_simps)
  have "\<not> is_space 124" by (simp add: is_space_def)
  then have "split_ws r \<noteq> []" using assms by (auto simp: split_ws_eq_Nil)
  then obtain x xs where x: "split_ws r = x # xs" by (cases "split_ws r") auto
  have "split_ws (str ''SRC:WEB'' @ (32 # r)) = str ''SRC:WEB'' # split_ws r"
    using split_ws_word [OF w, of "32 # r"] by (simp add: split_ws_space)
  then have "clean_text (str ''SRC:WEB '' @ r) = str ''SRC:WEB'' @ 32 # join [32] (x # xs)"
    using x e by (simp add: clean_text_join)
  then show ?thesis by (simp add: str_simps)
qed

lemma aggregate_subset: "l \<in> set (aggregate xs) \<Longrightarrow> \<exists>x \<in> set xs. l = clean_text x"
  by (auto simp: aggregate_def set_dedupe normalize_lines_def)

lemma main_Inr_disabled:
  assumes "\<not> apify_enabled w" and "fst (main w) = Inr ls"
  shows "\<exists>kvs web tr. read_sources w = Inr (JDict kvs) \<and>
           web_stage w (dget_default kvs (str ''web'') (JList [])) = (Inr web, tr) \<and>
           ls = aggregate web"
  using assms
  by (auto simp: main_def Let_def apify_stage_def write_text_def
      split: sum.splits json.splits prod.splits if_splits)

text \<open>
  Claim C4: (as amended) without the actor-platform credential no request of
  the run goes to the actor platform, and every line of a run that returns normally starts
  with the web label, so none is actor-sourced. When moreover the configuration loads and
  the web stage completes, the run ends with the write of exactly the aggregated web
  lines, and returns normally when their content can be encoded.
\<close>

theorem no_apify_token_web_only:
  assumes "APIFY_TOKEN w = []"
  shows "(\<forall>r \<in> set (snd (main w)). \<not> is_actor_request r) \<and>
         (\<forall>ls. fst (main w) = Inr ls \<longrightarrow> (\<forall>l \<in> set ls. take 8 l = str ''SRC:WEB '')) \<and>
         (\<forall>kvs web tr.
            read_sources w = Inr (JDict kvs) \<longrightarrow>
            web_stage w (dget_default kvs (str ''web'') (JList [])) = (Inr web, tr) \<longrightarrow>
            main w = (write_text (aggregate web), tr) \<and>
            (utf8_encodable (file_content (aggregate web)) \<longrightarrow>
               main w = (Inr (aggregate web), tr)))"
proof -
  have off: "\<not> apify_enabled w" using assms by (simp add: apify_enabled_def)
  have "list_all (\<lambda>r. \<not> is_actor_request r) (snd (main w))"
    by (intro main_trace) (simp_all add: off)
  then have a: "\<forall>r \<in> set (snd (main w)). \<not> is_actor_request r"
    by (simp add: list_all_iff)
  have b: "\<forall>ls. fst (main w) = Inr ls \<longrightarrow> (\<forall>l \<in> set ls. take 8 l = str ''SRC:WEB '')"
  proof (intro allI impI ballI)
    fix ls l assume m: "fst (main w) = Inr ls" and l: "l \<in> set ls"
    from main_Inr_disabled [OF off m] obtain kvs web tr where
      ws: "web_stage w (dget_default kvs (str ''web'') (JList [])) = (Inr web, tr)"
      and ls: "ls = aggregate web" by blast
    from l ls obtain x where "x \<in> set web" and lx: "l = clean_text x"
      using aggregate_subset by blast
    then obtain r where "x = str ''SRC:WEB '' @ r" and "124 \<in> set r"
      using web_stage_lines [OF ws] by blast
    then show "take 8 l = str ''SRC:WEB ''" using lx clean_text_web_label by simp
  qed
  have c: "\<forall>kvs web tr.
            read_sources w = Inr (JDict kvs) \<longrightarrow>
            web_stage w (dget_default kvs (str ''web'') (JList [])) = (Inr web, tr) \<longrightarrow>
            main w = (write_text (aggregate web), tr) \<and>
            (utf8_encodable (file_content (aggregate web)) \<longrightarrow>
               main w = (Inr (aggregate web), tr))"
    using off by (simp add: main_def Let_def apify_stage_def write_text_def)
  show ?thesis using a b c by blast
qed

lemma actor_world_fields:
  "getenv (actor_world p) = (\<lambda>name. None)"
  "sources_file (actor_world p) = Some (str ''web: [u]'')"
  "yaml_safe_load (actor_world p) = (\<lambda>s. Inr one_actor_config)"
  "http (actor_world p) = (\<lambda>tr req. Inr \<lparr> status_code = 200, body = str ''<p>'' \<rparr>)"
  "soup_get_text (actor_world p) = (\<lambda>html. p)"
  by (simp_all add: actor_world_def page_world_def bare_world_def)

lemma actor_world_keys:
  "FIRECRAWL_API_KEY (actor_world p) = []" "APIFY_TOKEN (actor_world p) = []"
  by (simp_all add: FIRECRAWL_API_KEY_def APIFY_TOKEN_def getenv_or_def actor_world_fields)

lemma actor_world_web_text:
  "web_text (actor_world p) url [] = (Some (clean_text p), [GET url])"
  by (simp add: web_text_disabled actor_world_keys simple_fetch_def retry_3 simple_fetch_once_def
      http_call_def actor_world_fields is_success_def extract_text_from_html_def)

lemma actor_world_sources: "read_sources (actor_world p) = Inr one_actor_config"
  by (simp add: read_sources_def actor_world_fields one_actor_config_def py_or_def setdefault_def
      str_simps)

lemma actor_world_web_stage:
  "web_stage (actor_world p) (JList [JStr (str ''u'')]) =
     (Inr (web_lines (actor_world p) (JStr (str ''u'')) (Some (clean_text p))),
      [GET (JStr (str ''u''))])"
  by (simp add: web_stage_def build_lines_from_web_def py_iter_def actor_world_web_text)

theorem no_apify_token_web_only_witness:
  "APIFY_TOKEN (actor_world (str ''Hello   World'')) = [] \<and>
   read_sources (actor_world (str ''Hello   World'')) = Inr one_actor_config \<and>
   truthy (dget_default
     [(str ''web'', JList [JStr (str ''u'')]),
      (str ''apify'', JList [JDict [(str ''actor'', JStr (str ''x/y'')), (str ''input'', JDict [])]])]
     (str ''apify'') (JList [])) \<and>
   main (actor_world (str ''Hello   World'')) =
     (Inr [str ''SRC:WEB u | Hello World''], [GET (JStr (str ''u''))]) \<and>
   \<not> is_actor_request (GET (JStr (str ''u''))) \<and>
   take 8 (str ''SRC:WEB u | Hello World'') = str ''SRC:WEB ''"
proof -
  let ?w = "actor_world (str ''Hello   World'')"
  let ?kvs = "[(str ''web'', JList [JStr (str ''u'')]),
      (str ''apify'', JList [JDict [(str ''actor'', JStr (str ''x/y'')), (str ''input'', JDict [])]])]"
  let ?line = "str ''SRC:WEB u | Hello World''"
  have a: "APIFY_TOKEN ?w = []" by (simp add: actor_world_keys)
  have b: "read_sources ?w = Inr (JDict ?kvs)"
    by (simp add: actor_world_sources one_actor_config_def)
  have c0: "clean_text (str ''Hello World'') = str ''Hello World''"
    by (simp add: string_eval)
  have k: "chunks (str ''Hello World'') = [str ''Hello World'']"
    by (rule chunks_short) (simp_all add: str_simps)
  have p: "web_prefix ?w (JStr (str ''u'')) @ str ''Hello World'' = ?line"
    by (simp add: web_prefix_def fmt_def str_simps)
  have c: "web_stage ?w (dget_default ?kvs (str ''web'') (JList [])) =
      (Inr [?line], [GET (JStr (str ''u''))])"
    by (simp add: dget_default_def actor_world_web_stage hello_clean web_lines_Some c0 k p)
  have ag: "aggregate [?line] = [?line]"
    by (simp add: aggregate_def normalize_lines_def dedupe_single string_eval)
  have enc: "utf8_encodable (file_content (aggregate [?line]))"
    unfolding ag by (simp add: file_content_def utf8_encodable_def str_simps)
  have t: "take 8 ?line = str ''SRC:WEB ''" by (simp add: str_simps)
  have ap: "truthy (dget_default ?kvs (str ''apify'') (JList []))"
    by (simp add: dget_default_def str_simps)
  from no_apify_token_web_only [OF a, THEN conjunct2, THEN conjunct2, rule_format, OF b c]
  have "main ?w = (Inr (aggregate [?line]), [GET (JStr (str ''u''))])"
    using enc by blast
  then have m: "main ?w = (Inr [?line], [GET (JStr (str ''u''))])" by (simp only: ag)
  show ?thesis
    using a m t ap by (simp add: actor_world_sources)
qed

text \<open>
  Claim C4: as stated, that every run without the credential completes,
  fails on a configuration that gives the number 5 for \<open>web\<close>: the loop over it raises
  \<open>TypeError\<close>, which nothing catches.
\<close>

theorem no_apify_token_counterexample:
  "APIFY_TOKEN web_number_world = [] \<and> main web_number_world = (Inl TypeError, [])"
  by (simp add: main_def read_sources_def web_number_world_def bare_world_def APIFY_TOKEN_def
      getenv_or_def py_or_def setdefault_def dget_default_def web_stage_def
      build_lines_from_web_def py_iter_def str_simps)

lemma length_join_Cons:
  "length (join [32] (w # ws)) \<le> length w + 1 + length (join [32] ws)"
  by (cases ws) auto

lemma length_join_split_ws: "length (join [32] (split_ws s)) \<le> length (dropWhile is_space s)"
proof (induction s rule: split_ws.induct)
  case (1 s)
  show ?case
  proof (cases "dropWhile is_space s")
    case Nil
    then have "split_ws s = []" by (subst split_ws.simps) (simp only: Nil list.case)
    then show ?thesis by simp
  next
    case (Cons c cs)
    define w where "w = takeWhile (\<lambda>x. \<not> is_space x) (c # cs)"
    define r where "r = dropWhile (\<lambda>x. \<not> is_space x) (c # cs)"
    have s: "split_ws s = w # split_ws r"
      by (subst split_ws.simps) (simp only: Cons list.case w_def r_def)
    have len: "length w + length r = length (c # cs)"
      using takeWhile_dropWhile_id [of "\<lambda>x. \<not> is_space x" "c # cs"]
      by (metis length_append w_def r_def)
    have ih: "length (join [32] (split_ws r)) \<le> length (dropWhile is_space r)"
      using "1.IH" [OF Cons] by (simp add: r_def)
    show ?thesis
    proof (cases r)
      case Nil
      then show ?thesis using s len Cons by simp
    next
      case rc: (Cons d r')
      have "is_space d"
        using hd_dropWhile [of "\<lambda>x. \<not> is_space x" "c # cs"] rc by (auto simp: r_def)
      then have "length (dropWhile is_space r) \<le> length r'"
        using rc by (simp add: length_dropWhile_le)
      then have "length (join [32] (split_ws r)) \<le> length r'" using ih by simp
      moreover have "length (join [32] (w # split_ws r)) \<le> length w + 1 + length (join [32] (split_ws r))"
        by (rule length_join_Cons)
      ultimately have "length (join [32] (split_ws s)) \<le> length w + length r"
        using s rc by simp
      then show ?thesis using len Cons by simp
    qed
  qed
qed

lemma length_clean_text_le: "length (clean_text s) \<le> length s"
  using length_join_split_ws [of s] length_dropWhile_le [of is_space s]
  by (simp add: clean_text_join)

lemma clean_text_join_words:
  "\<forall>w \<in> set ws. is_word w \<Longrightarrow> clean_text (join [32] ws) = join [32] ws"
  by (simp add: clean_text_join split_ws_join)

lemma chunks_length: "c \<in> set (chunks t) \<Longrightarrow> length c \<le> 800"
  using chunks_from_length [of c 0 t] by (simp add: chunks_def)

lemma concat_chunks: "concat (chunks t) = t"
  by (simp add: chunks_def concat_chunks_from)

text \<open>
  Claim C1: (as amended) for a URL whose text was fetched, the lines the
  web fetcher appends are the prefix of the URL followed by the chunks of the normalized
  text, every chunk has at most 800 characters, the chunks concatenated in the order of
  emission are the normalized text, and every line of the final output that comes from
  them is at most 800 characters longer than the prefix.
\<close>

theorem web_chunks_reconstruct_text:
  assumes "web_text w url tr = (Some t, tr')"
  shows "web_loop w lines (url # urls) tr =
           web_loop w (lines @ map (\<lambda>c. web_prefix w url @ c) (chunks (clean_text t))) urls tr' \<and>
         (\<forall>c \<in> set (chunks (clean_text t)). length c \<le> 800) \<and>
         concat (chunks (clean_text t)) = clean_text t \<and>
         (\<forall>l \<in> set (aggregate (map (\<lambda>c. web_prefix w url @ c) (chunks (clean_text t)))).
            length l \<le> length (web_prefix w url) + 800)"
proof -
  have a: "web_loop w lines (url # urls) tr =
           web_loop w (lines @ map (\<lambda>c. web_prefix w url @ c) (chunks (clean_text t))) urls tr'"
    using assms by (simp add: web_lines_Some)
  have b: "\<forall>c \<in> set (chunks (clean_text t)). length c \<le> 800"
    using chunks_length by blast
  have "\<forall>l \<in> set (aggregate (map (\<lambda>c. web_prefix w url @ c) (chunks (clean_text t)))).
            length l \<le> length (web_prefix w url) + 800"
  proof
    fix l assume "l \<in> set (aggregate (map (\<lambda>c. web_prefix w url @ c) (chunks (clean_text t))))"
    then obtain c where c: "c \<in> set (chunks (clean_text t))"
      and l: "l = clean_text (web_prefix w url @ c)"
      using aggregate_subset by fastforce
    have "length l \<le> length (web_prefix w url @ c)"
      unfolding l by (rule length_clean_text_le)
    then show "length l \<le> length (web_prefix w url) + 800" using b c by fastforce
  qed
  then show ?thesis using a b concat_chunks by blast
qed

theorem web_chunks_reconstruct_text_witness:
  "web_text (page_world (str ''Hello   World'')) (JStr (str ''u'')) [] =
     (Some (str ''Hello World''), [GET (JStr (str ''u''))]) \<and>
   web_loop (page_world (str ''Hello   World'')) [] [JStr (str ''u'')] [] =
     ([str ''SRC:WEB u | Hello World''], [GET (JStr (str ''u''))]) \<and>
   concat (chunks (str ''Hello World'')) = str ''Hello World''"
proof -
  let ?w = "page_world (str ''Hello   World'')"
  have h: "web_text ?w (JStr (str ''u'')) [] = (Some (str ''Hello World''), [GET (JStr (str ''u''))])"
    by (simp add: page_world_web_text hello_clean)
  have c: "clean_text (str ''Hello World'') = str ''Hello World''"
    by (simp add: string_eval)
  have k: "chunks (str ''Hello World'') = [str ''Hello World'']"
    by (rule chunks_short) (simp_all add: str_simps)
  have p: "web_prefix ?w (JStr (str ''u'')) @ str ''Hello World'' = str ''SRC:WEB u | Hello World''"
    by (simp add: web_prefix_def fmt_def str_simps)
  show ?thesis
    using h web_chunks_reconstruct_text [OF h, of "[]" "[]"] by (simp add: c k p)
qed

lemma word_a: "0 < n \<Longrightarrow> is_word (replicate n 97)"
  by (auto simp: is_word_def is_space_def)

lemma clean_text_word: "is_word s \<Longrightarrow> clean_text s = s"
  using clean_text_join_words [of "[s]"] by simp

lemma chunks_1600: "chunks (replicate 1600 97) = [replicate 800 97, replicate 800 97]"
  unfolding chunks_def
  by (subst chunks_from.simps, subst chunks_from.simps, subst chunks_from.simps) simp

text \<open>
  Claim C1: as stated, for the chunks as they appear in the final
  output, fails on a page of 1600 times the letter a: its two chunks are equal, the
  aggregator keeps one line, and the chunks of the output are 800 characters, not the
  text.
\<close>

theorem final_output_chunks_counterexample:
  "web_text (page_world (replicate 1600 97)) (JStr (str ''u'')) [] =
     (Some (replicate 1600 97), [GET (JStr (str ''u''))]) \<and>
   clean_text (replicate 1600 97) = replicate 1600 97 \<and>
   fst (main (page_world (replicate 1600 97))) = Inr [str ''SRC:WEB u | '' @ replicate 800 97] \<and>
   concat (map (drop (length (str ''SRC:WEB u | ''))) [str ''SRC:WEB u | '' @ replicate 800 97]) \<noteq>
     clean_text (replicate 1600 97)"
proof -
  let ?w = "page_world (replicate 1600 97)"
  let ?x = "str ''SRC:WEB u | '' @ replicate 800 97"
  have c: "clean_text (replicate 1600 97) = replicate 1600 97"
    by (rule clean_text_word) (simp add: word_a)
  have p: "web_prefix ?w (JStr (str ''u'')) = str ''SRC:WEB u | ''"
    by (simp add: web_prefix_def fmt_def str_simps)
  have ls: "web_lines ?w (JStr (str ''u'')) (Some (clean_text (replicate 1600 97))) = [?x, ?x]"
    by (simp add: web_lines_Some c chunks_1600 p)
  have j: "?x = join [32] [str ''SRC:WEB'', str ''u'', str ''|'', replicate 800 97]"
    by (simp add: str_simps)
  have ws: "\<forall>w \<in> set [str ''SRC:WEB'', str ''u'', str ''|'', replicate 800 97]. is_word w"
    using word_a [of 800] by (simp add: is_word_def str_simps is_space_def)
  have cx: "clean_text ?x = ?x"
    unfolding j by (rule clean_text_join_words [OF ws])
  have sx: "strip ?x = ?x"
    unfolding j by (rule strip_join_words [OF ws])
  have ne: "?x \<noteq> []" by (simp add: str_simps)
  have "normalize_lines [?x, ?x] = [?x, ?x]"
    using cx sx ne by (simp add: normalize_lines_def)
  then have a: "aggregate [?x, ?x] = [?x]"
    by (simp add: aggregate_def dedupe_keep_order_def)
  have e: "write_text [?x] = Inr [?x]"
    by (simp add: write_text_def file_content_def utf8_encodable_def str_simps list_all_iff)
  have m: "fst (main ?w) = Inr [?x]"
    by (simp add: page_world_main ls a e)
  have "length (concat (map (drop (length (str ''SRC:WEB u | ''))) [?x])) = 800" by simp
  then have d: "concat (map (drop (length (str ''SRC:WEB u | ''))) [?x]) \<noteq> clean_text (replicate 1600 97)"
    unfolding c by (metis length_replicate numeral_eq_iff semiring_norm(88) semiring_norm(89) semiring_norm(87))
  show ?thesis
    using c m d by (simp add: page_world_web_text)
qed

end
